theory Spec2Isabelle
  imports Main "HOL-Library.Word"
begin

unbundle bit_operations_syntax

section \<open>Go values used by both packages\<close>

text \<open>
  A Go call either returns (possibly with a non-nil \<open>error\<close>, which carries a message)
  or panics. Both are values of the model: \<open>Error msg\<close> is a returned error whose
  \<open>Error()\<close> text is \<open>msg\<close>, \<open>Panic msg\<close> is a run-time panic.
\<close>

datatype failure = Error string | Panic string

text \<open>
  \<open>fmt.Errorf("prefix: %w", err)\<close> prefixes the message of a returned error; a panic is
  not an error value and passes through unchanged.
\<close>

fun wrap_error :: "string \<Rightarrow> failure \<Rightarrow> failure" where
  "wrap_error pfx (Error msg) = Error (pfx @ msg)"
| "wrap_error pfx (Panic msg) = Panic msg"

text \<open>
  Go's \<open>int\<close> is a 64-bit two's complement integer. The model computes in \<open>int\<close> and
  writes the wrap-around out (\<open>wrap64\<close>) at the operations whose result can leave the
  64-bit range for some input: the shifts and \<open>len + 1\<close>. Every other operation of the
  package acts on array indices that have passed a bounds check.
  Division and remainder truncate towards zero.
\<close>

definition wrap64 :: "int \<Rightarrow> int" where
  "wrap64 x = signed_take_bit 63 x"

definition go_div :: "int \<Rightarrow> int \<Rightarrow> int" where
  "go_div a b = sgn a * sgn b * (\<bar>a\<bar> div \<bar>b\<bar>)"

definition go_mod :: "int \<Rightarrow> int \<Rightarrow> int" where
  "go_mod a b = a - b * go_div a b"

text \<open>\<open>x << n\<close> for a shift count \<open>n \<ge> 0\<close>; a count of 64 or more gives 0.\<close>

definition shl :: "int \<Rightarrow> int \<Rightarrow> int" where
  "shl x n = wrap64 (push_bit (nat n) x)"

text \<open>Slice reads and writes are bounds-checked; out of range is a run-time panic.\<close>

definition index :: "'a list \<Rightarrow> int \<Rightarrow> failure + 'a" where
  "index xs i =
     (if 0 \<le> i \<and> i < int (length xs) then Inr (xs ! nat i)
      else Inl (Panic ''index out of range''))"

definition store :: "'a list \<Rightarrow> int \<Rightarrow> 'a \<Rightarrow> failure + 'a list" where
  "store xs i v =
     (if 0 \<le> i \<and> i < int (length xs) then Inr (xs[nat i := v])
      else Inl (Panic ''index out of range''))"

section \<open>Package merkle\<close>

subsection \<open>Data\<close>

type_synonym uint256 = "256 word"

text \<open>
  \<open>TreeNode.Value\<close> is a pointer \<open>*uint256.Int\<close>; \<open>None\<close> is the nil pointer. The
  package never writes through the pointer, so the pointee is modelled by its value.
\<close>

record TreeNode =
  Value :: "uint256 option"

record Tree =
  Nodes :: "TreeNode list"

record Proof =
  Path :: "TreeNode list"
  Indices :: int

text \<open>
  \<open>HashFunc\<close> is \<open>poseidon.Hash\<close> of an external library: a parameter of the model,
  from a sequence of \<open>big.Int\<close> to a \<open>big.Int\<close> or the message of an error.
\<close>

type_synonym hashfn = "int list \<Rightarrow> string + int"

subsection \<open>Index helpers\<close>

definition GetParentIndex :: "int \<Rightarrow> int" where
  "GetParentIndex i = go_div (i - 1) 2"

definition IsRightChild :: "int \<Rightarrow> bool" where
  "IsRightChild i = (go_mod i 2 = 0)"

definition GetSiblingIndex :: "int \<Rightarrow> int" where
  "GetSiblingIndex i = (if IsRightChild i then i - 1 else i + 1)"

definition GetLeavesAmount :: "Tree \<Rightarrow> int" where
  "GetLeavesAmount t = go_div (wrap64 (int (length (Nodes t)) + 1)) 2"

definition Root :: "Tree \<Rightarrow> failure + TreeNode" where
  "Root t = index (Nodes t) 0"

subsection \<open>Hashing two nodes\<close>

text \<open>
  \<open>uint256.FromBig\<close> reports overflow when the magnitude needs more than 256 bits, and
  otherwise yields the value modulo \<open>2^256\<close>. Reading \<open>Value\<close> of a node whose pointer
  is nil is a nil dereference inside the hash.
\<close>

definition computeNodeHash :: "hashfn \<Rightarrow> TreeNode \<Rightarrow> TreeNode \<Rightarrow> failure + TreeNode" where
  "computeNodeHash HashFunc left right =
     (case (Value left, Value right) of
        (Some l, Some r) \<Rightarrow>
          (case HashFunc [uint l, uint r] of
             Inl err \<Rightarrow> Inl (Error err)
           | Inr val \<Rightarrow>
               if 2 ^ 256 \<le> \<bar>val\<bar> then Inl (Error ''invalid hash'')
               else Inr \<lparr>Value = Some (word_of_int val)\<rparr>)
      | _ \<Rightarrow> Inl (Panic ''nil pointer dereference''))"

definition getChildrenOf :: "int \<Rightarrow> TreeNode list \<Rightarrow> failure + (TreeNode \<times> TreeNode)" where
  "getChildrenOf i nodes =
     (case index nodes (i * 2 + 1) of
        Inl e \<Rightarrow> Inl e
      | Inr l \<Rightarrow>
          (case index nodes (i * 2 + 2) of
             Inl e \<Rightarrow> Inl e
           | Inr r \<Rightarrow> Inr (l, r)))"

definition computeChildrenHash :: "hashfn \<Rightarrow> int \<Rightarrow> TreeNode list \<Rightarrow> failure + TreeNode" where
  "computeChildrenHash HashFunc i nodes =
     (case getChildrenOf i nodes of
        Inl e \<Rightarrow> Inl e
      | Inr (l, r) \<Rightarrow> computeNodeHash HashFunc l r)"

subsection \<open>NewEmptyTree\<close>

text \<open>The inner loop \<open>for j := 0; j < nodesAmount; j++\<close> writing one level.\<close>

function fill_level ::
  "TreeNode list \<Rightarrow> int \<Rightarrow> int \<Rightarrow> int \<Rightarrow> uint256 option \<Rightarrow> failure + TreeNode list" where
  "fill_level nodes firstNodeIndex nodesAmount j leafValue =
     (if j < nodesAmount then
        (case index nodes (firstNodeIndex + j) of
           Inl e \<Rightarrow> Inl e
         | Inr n \<Rightarrow>
             (case store nodes (firstNodeIndex + j) (n\<lparr>Value := leafValue\<rparr>) of
                Inl e \<Rightarrow> Inl e
              | Inr nodes' \<Rightarrow> fill_level nodes' firstNodeIndex nodesAmount (j + 1) leafValue))
      else Inr nodes)"
  by pat_completeness auto
termination
  by (relation "measure (\<lambda>(nodes, f, n, j, v). nat (n - j))") auto

declare fill_level.simps [simp del]

text \<open>The outer loop over the levels, leaf level first.\<close>

function NewEmptyTree_loop ::
  "hashfn \<Rightarrow> int \<Rightarrow> int \<Rightarrow> int \<Rightarrow> int \<Rightarrow> uint256 option \<Rightarrow> TreeNode list
   \<Rightarrow> failure + TreeNode list" where
  "NewEmptyTree_loop HashFunc depth i nodesAmount firstNodeIndex leafValue nodes =
     (if i < depth then
        (let firstNodeIndex' = firstNodeIndex - nodesAmount in
         case fill_level nodes firstNodeIndex' nodesAmount 0 leafValue of
           Inl e \<Rightarrow> Inl e
         | Inr nodes' \<Rightarrow>
             if firstNodeIndex' > 0 then
               (case computeChildrenHash HashFunc (firstNodeIndex' - 1) nodes' of
                  Inl e \<Rightarrow> Inl (wrap_error ''compute hash: '' e)
                | Inr node \<Rightarrow>
                    NewEmptyTree_loop HashFunc depth (i + 1) (go_div nodesAmount 2)
                      firstNodeIndex' (Value node) nodes')
             else
               NewEmptyTree_loop HashFunc depth (i + 1) (go_div nodesAmount 2)
                 firstNodeIndex' leafValue nodes')
      else Inr nodes)"
  by pat_completeness auto
termination
  by (relation "measure (\<lambda>(H, depth, i, n, f, v, nodes). nat (depth - i))") auto

declare NewEmptyTree_loop.simps [simp del]

text \<open>
  \<open>make([]TreeNode, n)\<close>: the runtime panics with \<open>makeslice: len out of range\<close> when
  \<open>n\<close> is negative or when the \<open>n\<close> elements, of 8 bytes each (a \<open>TreeNode\<close> is one
  pointer), exceed its allocation limit \<open>maxAlloc\<close>, which is \<open>2^48\<close> bytes on 64-bit
  Linux. Otherwise it yields \<open>n\<close> zero nodes, whose \<open>Value\<close> is nil. That an admitted
  allocation can still exhaust the memory of the machine is outside the model.
\<close>

definition maxAlloc :: int where
  "maxAlloc = 2 ^ 48"

definition make_TreeNodes :: "int \<Rightarrow> failure + TreeNode list" where
  "make_TreeNodes n =
     (if n < 0 \<or> maxAlloc < n * 8 then Inl (Panic ''makeslice: len out of range'')
      else Inr (replicate (nat n) \<lparr>Value = None\<rparr>))"

text \<open>
  The length \<open>1<<depth - 1\<close> is computed in 64 bits: it is \<open>2^depth - 1\<close> up to depth
  63 and \<open>-1\<close> from depth 64 on. \<open>firstNodeIndex\<close> starts as \<open>len(nodes)\<close>.
\<close>

definition NewEmptyTree :: "hashfn \<Rightarrow> int \<Rightarrow> uint256 option \<Rightarrow> failure + Tree" where
  "NewEmptyTree HashFunc depth leafValue =
     (if depth < 1 then Inl (Error ''invalid tree depth'')
      else
        (case make_TreeNodes (wrap64 (shl 1 depth - 1)) of
           Inl e \<Rightarrow> Inl e
         | Inr nodes0 \<Rightarrow>
             (case NewEmptyTree_loop HashFunc depth 0 (shl 1 (depth - 1))
                     (int (length nodes0)) leafValue nodes0 of
                Inl e \<Rightarrow> Inl e
              | Inr nodes \<Rightarrow> Inr \<lparr>Nodes = nodes\<rparr>)))"

subsection \<open>SetLeaf\<close>

text \<open>
  The receiver is mutated in place, so the model returns the tree as the call leaves it
  together with the error (\<open>None\<close> is \<open>nil\<close>). The assignment
  \<open>t.Nodes[j], err = computeChildrenHash(j, t.Nodes)\<close> stores the returned node also
  when \<open>err\<close> is set; the node is then the zero node.
\<close>

function SetLeaf_loop :: "hashfn \<Rightarrow> int \<Rightarrow> TreeNode list \<Rightarrow> TreeNode list \<times> failure option" where
  "SetLeaf_loop HashFunc j nodes =
     (if j > 0 then
        (case computeChildrenHash HashFunc j nodes of
           Inl (Panic msg) \<Rightarrow> (nodes, Some (Panic msg))
         | Inl (Error msg) \<Rightarrow>
             (case store nodes j \<lparr>Value = None\<rparr> of
                Inl e \<Rightarrow> (nodes, Some e)
              | Inr nodes' \<Rightarrow> (nodes', Some (Error (''compute hash: '' @ msg))))
         | Inr node \<Rightarrow>
             (case store nodes j node of
                Inl e \<Rightarrow> (nodes, Some e)
              | Inr nodes' \<Rightarrow> SetLeaf_loop HashFunc (GetParentIndex j) nodes'))
      else (nodes, None))"
  by pat_completeness auto
termination
  by (relation "measure (\<lambda>(H, j, nodes). nat j)")
    (auto simp: GetParentIndex_def go_div_def sgn_if)

declare SetLeaf_loop.simps [simp del]

definition SetLeaf :: "hashfn \<Rightarrow> Tree \<Rightarrow> int \<Rightarrow> TreeNode \<Rightarrow> Tree \<times> failure option" where
  "SetLeaf HashFunc t i val =
     (let leavesAmount = GetLeavesAmount t in
      if i \<ge> leavesAmount \<or> i < 0 then (t, Some (Error ''invalid leaf index''))
      else
        (let j = int (length (Nodes t)) - leavesAmount + i in
         case store (Nodes t) j val of
           Inl e \<Rightarrow> (t, Some e)
         | Inr nodes1 \<Rightarrow>
             (case SetLeaf_loop HashFunc (GetParentIndex j) nodes1 of
                (nodes2, Some e) \<Rightarrow> (t\<lparr>Nodes := nodes2\<rparr>, Some e)
              | (nodes2, None) \<Rightarrow>
                  (case computeChildrenHash HashFunc 0 nodes2 of
                     Inl (Panic msg) \<Rightarrow> (t\<lparr>Nodes := nodes2\<rparr>, Some (Panic msg))
                   | Inl (Error msg) \<Rightarrow>
                       (case store nodes2 0 \<lparr>Value = None\<rparr> of
                          Inl e \<Rightarrow> (t\<lparr>Nodes := nodes2\<rparr>, Some e)
                        | Inr nodes3 \<Rightarrow>
                            (t\<lparr>Nodes := nodes3\<rparr>, Some (Error (''compute hash: '' @ msg))))
                   | Inr node \<Rightarrow>
                       (case store nodes2 0 node of
                          Inl e \<Rightarrow> (t\<lparr>Nodes := nodes2\<rparr>, Some e)
                        | Inr nodes3 \<Rightarrow> (t\<lparr>Nodes := nodes3\<rparr>, None))))))"

subsection \<open>GetProof\<close>

text \<open>
  \<open>int(math.Log2(float64(n)))\<close>: the model takes the exact floor of the binary
  logarithm. The floating-point computation agrees with it when \<open>n\<close> is a power of two
  below \<open>2^63\<close> (the conversion and the logarithm are then exact), which is the case for
  the length plus one of every tree that \<open>NewEmptyTree\<close> builds. \<open>GetProof\<close> reaches
  the computation only after the index check, when \<open>len + 1\<close> is at least 2.
\<close>

fun log2_floor :: "nat \<Rightarrow> nat" where
  "log2_floor n = (if n < 2 then 0 else Suc (log2_floor (n div 2)))"

declare log2_floor.simps [simp del]

function GetProof_loop :: "TreeNode list \<Rightarrow> int \<Rightarrow> int \<Rightarrow> Proof \<Rightarrow> failure + Proof" where
  "GetProof_loop nodes j level proof =
     (if j > 0 then
        (let proof1 = proof\<lparr>Indices := Indices proof OR shl (go_mod j 2) level\<rparr>;
             siblingIndex = GetSiblingIndex j
         in case index nodes siblingIndex of
              Inl e \<Rightarrow> Inl e
            | Inr sibling \<Rightarrow>
                (case store (Path proof1) level sibling of
                   Inl e \<Rightarrow> Inl e
                 | Inr path' \<Rightarrow>
                     GetProof_loop nodes (GetParentIndex j) (level + 1) (proof1\<lparr>Path := path'\<rparr>)))
      else Inr proof)"
  by pat_completeness auto
termination
  by (relation "measure (\<lambda>(nodes, j, level, proof). nat j)")
    (auto simp: GetParentIndex_def go_div_def sgn_if)

declare GetProof_loop.simps [simp del]

definition GetProof :: "Tree \<Rightarrow> int \<Rightarrow> failure + Proof" where
  "GetProof t i =
     (let leavesAmount = GetLeavesAmount t in
      if i \<ge> leavesAmount \<or> i < 0 then Inl (Error ''invalid leaf index'')
      else
        (let proof0 = \<lparr>Path = replicate (log2_floor (nat (wrap64 (int (length (Nodes t)) + 1))))
                                 \<lparr>Value = None\<rparr>,
                       Indices = 0\<rparr>;
             j = int (length (Nodes t)) - leavesAmount + i
         in case GetProof_loop (Nodes t) j 0 proof0 of
              Inl e \<Rightarrow> Inl e
            | Inr proof1 \<Rightarrow>
                (case Root t of
                   Inl e \<Rightarrow> Inl e
                 | Inr root \<Rightarrow>
                     (case store (Path proof1) (int (length (Path proof1)) - 1) root of
                        Inl e \<Rightarrow> Inl e
                      | Inr path' \<Rightarrow> Inr (proof1\<lparr>Path := path'\<rparr>)))))"

subsection \<open>The leaf-to-root walk\<close>

text \<open>
  \<open>SetLeaf\<close> and \<open>GetProof\<close> both start at the array index of leaf \<open>i\<close>
  (\<open>j := len(t.Nodes) - leavesAmount + i\<close>) and follow \<open>GetParentIndex\<close> while
  \<open>j > 0\<close>. \<open>path_below_root j\<close> lists the indices such a walk visits, leaf level
  first: the nodes of the leaf-to-root path below the root.
\<close>

function path_below_root :: "int \<Rightarrow> int list" where
  "path_below_root j = (if j > 0 then j # path_below_root (GetParentIndex j) else [])"
  by pat_completeness auto
termination
  by (relation "measure nat") (auto simp: GetParentIndex_def go_div_def sgn_if)

declare path_below_root.simps [simp del]

definition leaf_index :: "Tree \<Rightarrow> int \<Rightarrow> int" where
  "leaf_index t i = int (length (Nodes t)) - GetLeavesAmount t + i"

subsection \<open>Notions the properties are stated with\<close>

text \<open>
  Hashing a node with itself, level by level: \<open>pairwise_hash H k n\<close> is \<open>n\<close> for
  \<open>k = 0\<close>, \<open>Hash(n, n)\<close> for \<open>k = 1\<close>, \<open>Hash(Hash(n, n), Hash(n, n))\<close> for
  \<open>k = 2\<close>, and so on: \<open>k\<close> applications of \<open>computeNodeHash\<close>.
\<close>

fun pairwise_hash :: "hashfn \<Rightarrow> nat \<Rightarrow> TreeNode \<Rightarrow> failure + TreeNode" where
  "pairwise_hash H 0 n = Inr n"
| "pairwise_hash H (Suc k) n =
     (case computeNodeHash H n n of
        Inl e \<Rightarrow> Inl e
      | Inr n' \<Rightarrow> pairwise_hash H k n')"

text \<open>
  The invariant of the data model: every internal node, one whose children \<open>2i+1\<close>
  and \<open>2i+2\<close> are in the array, holds the hash of its two children.
\<close>

definition tree_invariant :: "hashfn \<Rightarrow> Tree \<Rightarrow> bool" where
  "tree_invariant H t \<longleftrightarrow>
     (\<forall>i < length (Nodes t). 2 * i + 2 < length (Nodes t)
        \<longrightarrow> computeChildrenHash H (int i) (Nodes t) = Inr (Nodes t ! i))"

text \<open>
  The trees the package produces: those returned by \<open>NewEmptyTree\<close>, and those a
  successful \<open>SetLeaf\<close> leaves behind on such a tree.
\<close>

inductive reachable :: "hashfn \<Rightarrow> Tree \<Rightarrow> bool" for H :: hashfn where
  reachable_new: "NewEmptyTree H depth leafValue = Inr t \<Longrightarrow> reachable H t"
| reachable_set: "reachable H t \<Longrightarrow> SetLeaf H t i val = (t', None) \<Longrightarrow> reachable H t'"

text \<open>
  Recomputing a root from a leaf node and the sibling entries of a proof, level by
  level from bit \<open>k\<close> of the bitmask on. \<open>root_from_proof\<close> reads a set bit as "the
  sibling is the right input of the hash", which is what \<open>GetProof\<close> records;
  \<open>root_from_proof_documented\<close> follows the words of the spec: it reads a set bit as
  "the current node was a right child" and so puts the sibling on the left.
\<close>

fun root_from_proof ::
  "hashfn \<Rightarrow> TreeNode \<Rightarrow> TreeNode list \<Rightarrow> int \<Rightarrow> nat \<Rightarrow> failure + TreeNode" where
  "root_from_proof H current [] indices k = Inr current"
| "root_from_proof H current (sibling # siblings) indices k =
     (case (if bit indices k then computeNodeHash H current sibling
            else computeNodeHash H sibling current) of
        Inl e \<Rightarrow> Inl e
      | Inr parent \<Rightarrow> root_from_proof H parent siblings indices (Suc k))"

fun root_from_proof_documented ::
  "hashfn \<Rightarrow> TreeNode \<Rightarrow> TreeNode list \<Rightarrow> int \<Rightarrow> nat \<Rightarrow> failure + TreeNode" where
  "root_from_proof_documented H current [] indices k = Inr current"
| "root_from_proof_documented H current (sibling # siblings) indices k =
     (case (if bit indices k then computeNodeHash H sibling current
            else computeNodeHash H current sibling) of
        Inl e \<Rightarrow> Inl e
      | Inr parent \<Rightarrow> root_from_proof_documented H parent siblings indices (Suc k))"

text \<open>
  A hash that never fails and whose results fit in 256 bits, as the spec describes the
  field hash on field elements.
\<close>

definition total_hash :: "hashfn \<Rightarrow> bool" where
  "total_hash H \<longleftrightarrow> (\<forall>xs. \<exists>v. H xs = Inr v \<and> \<bar>v\<bar> < 2 ^ 256)"

definition non_nil :: "TreeNode list \<Rightarrow> bool" where
  "non_nil nodes \<longleftrightarrow> (\<forall>n \<in> set nodes. Value n \<noteq> None)"

subsection \<open>Concrete inputs\<close>

text \<open>
  A stand-in for the external hash, total and not symmetric in its two inputs, on which
  theorems that take the hash as a parameter are instantiated.
\<close>

definition demoHash :: hashfn where
  "demoHash xs = Inr (foldl (\<lambda>a x. (3 * a + x + 1) mod 1009) 7 xs)"

text \<open>A tree of depth 2 (three nodes, two leaves) with arbitrary values.\<close>

definition example_tree :: Tree where
  "example_tree = \<lparr>Nodes = [\<lparr>Value = Some 30\<rparr>, \<lparr>Value = Some 10\<rparr>, \<lparr>Value = Some 20\<rparr>]\<rparr>"


definition example_tree3_set :: Tree where
  "example_tree3_set = \<lparr>Nodes = [\<lparr>Value = Some 99\<rparr>, \<lparr>Value = Some 9\<rparr>, \<lparr>Value = Some 5\<rparr>]\<rparr>"

definition example_tree7 :: Tree where
  "example_tree7 =
     \<lparr>Nodes = [\<lparr>Value = Some 415\<rparr>, \<lparr>Value = Some 87\<rparr>, \<lparr>Value = Some 87\<rparr>,
               \<lparr>Value = Some 5\<rparr>, \<lparr>Value = Some 5\<rparr>, \<lparr>Value = Some 5\<rparr>, \<lparr>Value = Some 5\<rparr>]\<rparr>"

section \<open>Package zkcertificate\<close>

subsection \<open>Values of other packages\<close>

text \<open>
  \<open>babyjub.Point\<close>, \<open>babyjub.PublicKey\<close> (a point) and \<open>babyjub.Signature\<close> hold
  \<open>*big.Int\<close> coordinates. The pointers handed to \<open>New\<close>, \<open>VerifySignature\<close> and
  \<open>LeafHash\<close> are taken to be non-nil, and a \<open>big.Int\<close> is an \<open>int\<close>.
\<close>

record Point =
  X :: int
  Y :: int

type_synonym PublicKey = Point

record Signature =
  R8 :: Point
  S :: int

text \<open>
  \<open>time.Time\<close> is observed only through \<open>Unix()\<close>, its seconds since the epoch;
  \<open>Timestamp(expirationDate)\<close> is a conversion of the same value.
\<close>

record Time =
  Unix :: int

type_synonym Timestamp = Time

text \<open>An \<open>int64\<close> is a 64-bit word read as two's complement (\<open>sint\<close>).\<close>

type_synonym int64 = "64 word"

text \<open>
  Modelled from the spec: the type \<open>Hash\<close> with its conversions \<open>BigInt\<close> and
  \<open>HashFromBigInt\<close> is declared in a file of the package that is not among the
  sources. The spec has a hash as a field element, an unsigned integer; the model
  keeps the integer that \<open>HashFromBigInt\<close> is given.
\<close>

datatype Hash = HashFromBigInt (BigInt: int)

text \<open>
  Modelled from the spec: the type \<open>Standard\<close> is declared in a file of the package
  that is not among the sources. The spec has it as the standard tag of the content.
\<close>

type_synonym Standard = string

text \<open>The decimal string of an integer, with a minus sign when it is negative.\<close>

fun decimal_nat :: "nat \<Rightarrow> string" where
  "decimal_nat n =
     (if n < 10 then [char_of (48 + n)]
      else decimal_nat (n div 10) @ [char_of (48 + n mod 10)])"

declare decimal_nat.simps [simp del]

definition decimal :: "int \<Rightarrow> string" where
  "decimal i = (if i < 0 then CHR ''-'' # decimal_nat (nat (- i)) else decimal_nat (nat i))"

text \<open>
  Modelled from the spec: the \<open>String\<close> methods that \<open>fmt.Sprintf\<close> uses for \<open>%s\<close>
  are declared with the two types. The spec writes a hash as the decimal string of
  its value and the standard tag as it is.
\<close>

definition Hash_String :: "Hash \<Rightarrow> string" where
  "Hash_String h = decimal (BigInt h)"

definition Standard_String :: "Standard \<Rightarrow> string" where
  "Standard_String standard = standard"

subsection \<open>Certificates\<close>

record ProviderData =
  PublicKey :: PublicKey
  Signature :: Signature

record 'c Certificate =
  certHolderCommitment :: Hash
  certLeafHash :: Hash
  certDID :: string
  certStandard :: Standard
  certContent :: 'c
  certContentHash :: Hash
  certExpirationDate :: Timestamp
  certProvider :: ProviderData
  certRandomSalt :: int64

text \<open>
  The interface \<open>Content\<close>: a content type \<open>'c\<close> comes with its two methods,
  \<open>Hash() (Hash, error)\<close> and \<open>Standard() Standard\<close>.
\<close>

record 'c Content =
  content_Hash :: "'c \<Rightarrow> string + Hash"
  content_Standard :: "'c \<Rightarrow> Standard"

text \<open>
  \<open>PublicKey.VerifyPoseidon\<close> of the external signature library is a parameter, like
  the hash.
\<close>

type_synonym verifyfn = "PublicKey \<Rightarrow> int \<Rightarrow> Signature \<Rightarrow> bool"

definition VerifySignature ::
  "hashfn \<Rightarrow> verifyfn \<Rightarrow> PublicKey \<Rightarrow> Hash \<Rightarrow> Hash \<Rightarrow> Signature \<Rightarrow> failure + bool" where
  "VerifySignature poseidon VerifyPoseidon providerKey contentHash commitmentHash signature =
     (case poseidon [BigInt contentHash, BigInt commitmentHash] of
        Inl err \<Rightarrow> Inl (Error (''hash message: '' @ err))
      | Inr message \<Rightarrow> Inr (VerifyPoseidon providerKey message signature))"

definition LeafHash ::
  "hashfn \<Rightarrow> Hash \<Rightarrow> PublicKey \<Rightarrow> Signature \<Rightarrow> Hash \<Rightarrow> int64 \<Rightarrow> Time \<Rightarrow> failure + Hash" where
  "LeafHash poseidon contentHash providerPublicKey signature commitmentHash salt expirationDate =
     (case poseidon
             [BigInt contentHash,
              X providerPublicKey,
              Y providerPublicKey,
              S signature,
              X (R8 signature),
              Y (R8 signature),
              BigInt commitmentHash,
              sint salt,
              Unix expirationDate] of
        Inl err \<Rightarrow> Inl (Error (''compute hash: '' @ err))
      | Inr hash \<Rightarrow> Inr (HashFromBigInt hash))"

definition DID :: "Standard \<Rightarrow> Hash \<Rightarrow> string" where
  "DID standard leafHash = ''did:'' @ Standard_String standard @ '':'' @ Hash_String leafHash"

definition New ::
  "hashfn \<Rightarrow> verifyfn \<Rightarrow> 'c Content \<Rightarrow> Hash \<Rightarrow> 'c \<Rightarrow> PublicKey \<Rightarrow> Signature \<Rightarrow> int64 \<Rightarrow> Time
   \<Rightarrow> failure + 'c Certificate" where
  "New poseidon VerifyPoseidon methods holderCommitment content providerPublicKey
       providerSignature salt expirationDate =
     (case content_Hash methods content of
        Inl err \<Rightarrow> Inl (Error (''hash certificate content: '' @ err))
      | Inr contentHash \<Rightarrow>
          (case VerifySignature poseidon VerifyPoseidon providerPublicKey contentHash
                  holderCommitment providerSignature of
             Inl e \<Rightarrow> Inl (wrap_error ''verify signature: '' e)
           | Inr signatureValid \<Rightarrow>
               if \<not> signatureValid then Inl (Error ''invalid signature'')
               else
                 (case LeafHash poseidon contentHash providerPublicKey providerSignature
                         holderCommitment salt expirationDate of
                    Inl e \<Rightarrow> Inl (wrap_error ''compute leaf hash: '' e)
                  | Inr leafHash \<Rightarrow>
                      (let standard = content_Standard methods content in
                       Inr \<lparr>certHolderCommitment = holderCommitment,
                            certLeafHash = leafHash,
                            certDID = DID standard leafHash,
                            certStandard = standard,
                            certContent = content,
                            certContentHash = contentHash,
                            certExpirationDate = expirationDate,
                            certProvider = \<lparr>PublicKey = providerPublicKey,
                                            Signature = providerSignature\<rparr>,
                            certRandomSalt = salt\<rparr>))))"

subsection \<open>Text and JSON decoding\<close>

text \<open>
  Decimal digits: the bytes \<open>0\<close> to \<open>9\<close>, and the number that a sequence of them
  denotes. \<open>parse_digits\<close> accepts exactly the non-empty digit sequences.
\<close>

definition is_digit :: "char \<Rightarrow> bool" where
  "is_digit c \<longleftrightarrow> (48 :: nat) \<le> of_char c \<and> (of_char c :: nat) \<le> 57"

definition digits_value :: "string \<Rightarrow> nat" where
  "digits_value ds = foldl (\<lambda>acc c. 10 * acc + ((of_char c :: nat) - 48)) 0 ds"

definition parse_digits :: "string \<Rightarrow> nat option" where
  "parse_digits ds = (if ds \<noteq> [] \<and> list_all is_digit ds then Some (digits_value ds) else None)"

text \<open>
  \<open>uint256.FromDecimal\<close> of the external library \<open>holiman/uint256\<close>, as its
  documentation has it: at most one leading \<open>+\<close> is removed, and what remains must be
  one or more decimal digits denoting a number below \<open>2^256\<close>; leading zeros are
  allowed. A minus sign (also in \<open>-0\<close>), a second sign, an underscore, any other
  character, and a text with no digit at all are errors, and then no value is
  returned. Which texts are accepted, and with which value, is modelled; the
  message of the error is not: it is \<open>EOF\<close> where no digit is left, and otherwise
  one of two fixed messages.
\<close>

definition FromDecimal :: "string \<Rightarrow> string + uint256" where
  "FromDecimal str =
     (let digits = (case str of [] \<Rightarrow> [] | c # cs \<Rightarrow> if c = CHR ''+'' then cs else str)
      in if digits = [] then Inl ''EOF''
         else
           (case parse_digits digits of
              None \<Rightarrow> Inl ''invalid syntax''
            | Some v \<Rightarrow>
                if 2 ^ 256 \<le> v then Inl ''number > 256 bits'' else Inr (of_nat v)))"

text \<open>
  \<open>TreeNode.UnmarshalText\<close> stores what \<open>uint256.FromDecimal\<close> returns, also the nil
  pointer of a failed parse, and returns its error.
\<close>

definition UnmarshalText :: "TreeNode \<Rightarrow> string \<Rightarrow> TreeNode \<times> failure option" where
  "UnmarshalText n text =
     (case FromDecimal text of
        Inl err \<Rightarrow> (n\<lparr>Value := None\<rparr>, Some (Error err))
      | Inr v \<Rightarrow> (n\<lparr>Value := Some v\<rparr>, None))"

definition MarshalText :: "TreeNode \<Rightarrow> failure + string" where
  "MarshalText n =
     (case Value n of
        None \<Rightarrow> Inl (Panic ''nil pointer dereference'')
      | Some v \<Rightarrow> Inr (decimal (uint v)))"

text \<open>
  \<open>(*big.Int).SetString(s, 10)\<close> of the Go standard library, as its documentation has
  it: the whole string must be an optional sign, \<open>+\<close> or \<open>-\<close>, followed by one or
  more decimal digits; \<open>None\<close> is the result \<open>ok = false\<close>.
\<close>

definition SetString10 :: "string \<Rightarrow> int option" where
  "SetString10 s =
     (case s of
        [] \<Rightarrow> None
      | c # cs \<Rightarrow>
          if c = CHR ''-'' then map_option (\<lambda>n. - int n) (parse_digits cs)
          else if c = CHR ''+'' then map_option int (parse_digits cs)
          else map_option int (parse_digits s))"

record providerDataDTO =
  Ax :: string
  Bx :: string
  S_dto :: string
  R8x :: string
  R8y :: string

text \<open>
  The DTO's field for \<open>S\<close> is named \<open>S_dto\<close>, as \<open>S\<close> is the signature's.
  \<open>json.Unmarshal(data, &dto)\<close> is a parameter: it yields the DTO or the message of its
  error. When a coordinate fails to parse the receiver is left partly written; the
  model returns only the error then.
\<close>

type_synonym jsonfn = "string \<Rightarrow> string + providerDataDTO"

definition UnmarshalJSON :: "jsonfn \<Rightarrow> ProviderData \<Rightarrow> string \<Rightarrow> failure + ProviderData" where
  "UnmarshalJSON json_Unmarshal p data =
     (case json_Unmarshal data of
        Inl err \<Rightarrow> Inl (Error err)
      | Inr dto \<Rightarrow>
          (case SetString10 (Ax dto) of
             None \<Rightarrow> Inl (Error ''invalid x coordinate of public key point'')
           | Some pkx \<Rightarrow>
               (case SetString10 (Bx dto) of
                  None \<Rightarrow> Inl (Error ''invalid y coordinate of public key point'')
                | Some pky \<Rightarrow>
                    (case SetString10 (R8x dto) of
                       None \<Rightarrow> Inl (Error ''invalid x coordinate of signature r8 point'')
                     | Some sx \<Rightarrow>
                         (case SetString10 (R8y dto) of
                            None \<Rightarrow> Inl (Error ''invalid y coordinate of signature r8 point'')
                          | Some sy \<Rightarrow>
                              (case SetString10 (S_dto dto) of
                                 None \<Rightarrow> Inl (Error ''invalid s component of signature'')
                               | Some sv \<Rightarrow>
                                   Inr (p\<lparr>PublicKey := \<lparr>X = pkx, Y = pky\<rparr>,
                                          Signature := \<lparr>R8 = \<lparr>X = sx, Y = sy\<rparr>, S = sv\<rparr>\<rparr>)))))))"

subsection \<open>Decimal strings\<close>

text \<open>
  What the claims call a decimal string: a non-empty sequence of the digits \<open>0\<close> to
  \<open>9\<close>. \<open>strip_sign\<close> removes one leading \<open>+\<close> or \<open>-\<close>, so a valid decimal integer
  is a string \<open>str\<close> with \<open>is_decimal (strip_sign str)\<close>; it is negative when it
  starts with \<open>-\<close>.
\<close>

definition is_decimal :: "string \<Rightarrow> bool" where
  "is_decimal ds \<longleftrightarrow> ds \<noteq> [] \<and> list_all is_digit ds"

definition is_negative :: "string \<Rightarrow> bool" where
  "is_negative str \<longleftrightarrow> (case str of [] \<Rightarrow> False | c # cs \<Rightarrow> c = CHR ''-'')"

definition strip_sign :: "string \<Rightarrow> string" where
  "strip_sign str =
     (case str of
        [] \<Rightarrow> []
      | c # cs \<Rightarrow> if c = CHR ''-'' \<or> c = CHR ''+'' then cs else str)"

subsection \<open>Concrete inputs for the certificate theorems\<close>

text \<open>
  Stand-ins for the external signature check and for a content type (an integer that
  is its own hash, of standard \<open>gip1\<close>), a provider key and two signatures, of which
  only the first passes the stand-in check for the example message.
\<close>

definition demoVerify :: verifyfn where
  "demoVerify pk message sig \<longleftrightarrow> S sig = message + X pk"

definition demoContent :: "int Content" where
  "demoContent = \<lparr>content_Hash = (\<lambda>c. Inr (HashFromBigInt c)), content_Standard = (\<lambda>c. ''gip1'')\<rparr>"

definition demoKey :: PublicKey where
  "demoKey = \<lparr>X = 1, Y = 2\<rparr>"

definition goodSignature :: Signature where
  "goodSignature = \<lparr>R8 = \<lparr>X = 3, Y = 4\<rparr>, S = 123\<rparr>"

definition badSignature :: Signature where
  "badSignature = \<lparr>R8 = \<lparr>X = 3, Y = 4\<rparr>, S = 5\<rparr>"

definition example_dto :: providerDataDTO where
  "example_dto = \<lparr>Ax = ''-1'', Bx = ''2'', S_dto = ''3'', R8x = ''4'', R8y = ''5''\<rparr>"

definition bad_dto :: providerDataDTO where
  "bad_dto = \<lparr>Ax = ''1'', Bx = ''2'', S_dto = ''3'', R8x = ''0x4'', R8y = ''5''\<rparr>"

definition zeroProvider :: ProviderData where
  "zeroProvider = \<lparr>PublicKey = \<lparr>X = 0, Y = 0\<rparr>, Signature = \<lparr>R8 = \<lparr>X = 0, Y = 0\<rparr>, S = 0\<rparr>\<rparr>"

section \<open>Properties of package merkle\<close>

subsection \<open>Arithmetic of the index helpers\<close>

lemma wrap64_id: "- (2 ^ 63) \<le> x \<Longrightarrow> x < 2 ^ 63 \<Longrightarrow> wrap64 x = x"
  unfolding wrap64_def by (rule signed_take_bit_int_eq_self) auto

lemma wrap64_pow63: "wrap64 9223372036854775808 = - 9223372036854775808"
  unfolding wrap64_def by simp

lemma wrap64_pow_big:
  assumes "64 \<le> n"
  shows "wrap64 (2 ^ n) = 0"
proof -
  have "n = 64 + (n - 64)"
    using assms by simp
  then have "(2::int) ^ n = 2 ^ 64 * 2 ^ (n - 64)"
    by (metis power_add)
  then have "(2::int) ^ n mod 2 ^ 64 = 0"
    by simp
  then show ?thesis
    using assms unfolding wrap64_def
    by (simp add: signed_take_bit_eq_take_bit_minus take_bit_eq_mod bit_simps)
qed

lemma go_div2: "0 \<le> a \<Longrightarrow> go_div a 2 = a div 2"
  by (auto simp: go_div_def sgn_if)

lemma go_mod2: "0 \<le> a \<Longrightarrow> go_mod a 2 = a mod 2"
  by (simp add: go_mod_def go_div2 minus_mult_div_eq_mod)

lemma GetParentIndex_pos: "0 < j \<Longrightarrow> GetParentIndex j = (j - 1) div 2"
  by (simp add: GetParentIndex_def go_div2)

lemma GetParentIndex_0: "GetParentIndex 0 = 0"
  by (simp add: GetParentIndex_def go_div_def)

lemma GetSiblingIndex_pos:
  "0 \<le> j \<Longrightarrow> GetSiblingIndex j = (if even j then j - 1 else j + 1)"
  by (auto simp: GetSiblingIndex_def IsRightChild_def go_mod2)

lemma pow2_mono_int: "a \<le> b \<Longrightarrow> (2::int) ^ a \<le> 2 ^ b"
  by (rule power_increasing) auto

text \<open>The number of leaves, when the length is 2^d - 1.\<close>

lemma GetLeavesAmount_shape:
  assumes len: "int (length (Nodes t)) = 2 ^ d - 1"
  shows "GetLeavesAmount t =
           (if d = 0 then 0 else if d \<le> 62 then 2 ^ (d - 1) else if d = 63 then - (2 ^ 62) else 0)"
proof -
  consider "d = 0" | "1 \<le> d" "d \<le> 62" | "d = 63" | "64 \<le> d" by linarith
  then show ?thesis
  proof cases
    case 1
    then show ?thesis using len by (simp add: GetLeavesAmount_def wrap64_id go_div_def)
  next
    case 2
    have a: "(2::int) ^ d \<le> 2 ^ 62" using 2 by (intro pow2_mono_int) simp
    have b: "0 \<le> (2::int) ^ d" by simp
    have w: "wrap64 (2 ^ d) = 2 ^ d"
    proof (rule wrap64_id)
      show "- (2 ^ 63) \<le> (2::int) ^ d" by (rule order_trans [OF _ b]) simp
      show "(2::int) ^ d < 2 ^ 63" using a by simp
    qed
    obtain e where e: "d = Suc e" using 2 by (cases d) auto
    show ?thesis using 2 len w by (simp add: GetLeavesAmount_def go_div2 e)
  next
    case 3
    then show ?thesis using len by (simp add: GetLeavesAmount_def wrap64_pow63 go_div_def)
  next
    case 4
    then show ?thesis using len by (simp add: GetLeavesAmount_def wrap64_pow_big go_div_def)
  qed
qed

lemma valid_leaf_shape:
  assumes len: "int (length (Nodes t)) = 2 ^ d - 1"
    and i: "0 \<le> i" "i < GetLeavesAmount t"
  shows "1 \<le> d \<and> d \<le> 62 \<and> GetLeavesAmount t = 2 ^ (d - 1)"
  using i GetLeavesAmount_shape [OF len] by (auto split: if_splits)


subsection \<open>Facts about the walk\<close>

lemma path_nil: "j \<le> 0 \<Longrightarrow> path_below_root j = []"
  by (simp add: path_below_root.simps)

lemma path_cons: "0 < j \<Longrightarrow> path_below_root j = j # path_below_root ((j - 1) div 2)"
  by (subst path_below_root.simps) (simp add: GetParentIndex_pos)

lemma path_length:
  "2 ^ n \<le> j + 1 \<Longrightarrow> j + 1 < 2 ^ Suc n \<Longrightarrow> length (path_below_root j) = n"
proof (induction n arbitrary: j)
  case 0
  then show ?case by (simp add: path_nil)
next
  case (Suc n)
  have one: "(1::int) \<le> 2 ^ n" by simp
  have "2 * (2::int) ^ n \<le> j + 1" using Suc.prems(1) by simp
  with one have pos: "0 < j" by linarith
  have "2 ^ n \<le> (j - 1) div 2 + 1" "(j - 1) div 2 + 1 < 2 ^ Suc n"
    using Suc.prems by auto
  then have "length (path_below_root ((j - 1) div 2)) = n"
    by (rule Suc.IH)
  then show ?case by (simp add: path_cons [OF pos])
qed

lemma path_pos: "x \<in> set (path_below_root j) \<Longrightarrow> 0 < x \<and> x \<le> j"
proof (induction j rule: path_below_root.induct)
  case (1 j)
  show ?case
  proof (cases "0 < j")
    case True
    with 1 show ?thesis
      by (auto simp: path_cons GetParentIndex_pos)
  next
    case False
    with 1 show ?thesis by (simp add: path_nil)
  qed
qed

lemma bit_parity_shift:
  "bit (push_bit l (j mod 2 :: int)) b \<longleftrightarrow> b = l \<and> odd j"
  by (cases "even j") (auto simp: mod_2_eq_odd bit_simps)

lemma shl_parity:
  assumes "l \<le> 62"
  shows "shl (j mod 2) (int l) = push_bit l (j mod 2)"
proof -
  have a: "push_bit l (j mod 2) \<le> push_bit l (1::int)"
    by (simp add: push_bit_eq_mult)
  have "(2::int) ^ l \<le> 2 ^ 62" using assms by (rule pow2_mono_int)
  then have b: "push_bit l (1::int) < 2 ^ 63"
    by (simp add: push_bit_eq_mult)
  have c: "0 \<le> push_bit l (j mod 2)"
    by simp
  show ?thesis
    unfolding shl_def nat_int
  proof (rule wrap64_id)
    show "- (2 ^ 63) \<le> push_bit l (j mod 2)" by (rule order_trans [OF _ c]) simp
    show "push_bit l (j mod 2) < 2 ^ 63" using a b by linarith
  qed
qed


subsection \<open>What GetProof computes\<close>

lemma index_ok: "0 \<le> i \<Longrightarrow> i < int (length xs) \<Longrightarrow> index xs i = Inr (xs ! nat i)"
  by (simp add: index_def)

lemma store_ok: "0 \<le> i \<Longrightarrow> i < int (length xs) \<Longrightarrow> store xs i v = Inr (xs[nat i := v])"
  by (simp add: store_def)

lemma sibling_in_range:
  assumes "0 < j" "j < int (length nodes)" "odd (length nodes)"
  shows "0 \<le> GetSiblingIndex j \<and> GetSiblingIndex j < int (length nodes)"
proof (cases "even j")
  case True
  with assms show ?thesis by (simp add: GetSiblingIndex_pos)
next
  case False
  then have "even (j + 1)" by simp
  moreover have "odd (int (length nodes))" using assms(3) by simp
  ultimately have "j + 1 \<noteq> int (length nodes)" by metis
  with assms False show ?thesis by (simp add: GetSiblingIndex_pos)
qed

lemma GetProof_loop_spec:
  assumes "odd (length nodes)" "j < int (length nodes)"
    and "l + length (path_below_root j) \<le> length (Path proof)"
    and "l + length (path_below_root j) \<le> 63"
  shows "\<exists>p. GetProof_loop nodes j (int l) proof = Inr p
           \<and> length (Path p) = length (Path proof)
           \<and> (\<forall>k < length (path_below_root j).
                 Path p ! (l + k) = nodes ! nat (GetSiblingIndex (path_below_root j ! k)))
           \<and> (\<forall>m. m < l \<or> l + length (path_below_root j) \<le> m \<longrightarrow> Path p ! m = Path proof ! m)
           \<and> (\<forall>b. bit (Indices p) b \<longleftrightarrow>
                 bit (Indices proof) b
                 \<or> (l \<le> b \<and> b < l + length (path_below_root j) \<and> odd (path_below_root j ! (b - l))))"
  using assms
proof (induction j arbitrary: l "proof" rule: path_below_root.induct)
  case (1 j)
  show ?case
  proof (cases "0 < j")
    case False
    then show ?thesis
      by (subst GetProof_loop.simps) (auto simp: path_nil)
  next
    case True
    define pj where "pj = (j - 1) div 2"
    define sib where "sib = nodes ! nat (GetSiblingIndex j)"
    define proof' where
      "proof' = proof\<lparr>Indices := Indices proof OR push_bit l (j mod 2),
                      Path := (Path proof)[l := sib]\<rparr>"
    have pc: "path_below_root j = j # path_below_root pj"
      unfolding pj_def by (rule path_cons [OF True])
    have gp: "GetParentIndex j = pj"
      unfolding pj_def by (rule GetParentIndex_pos [OF True])
    have l62: "l \<le> 62" and lpath: "l < length (Path proof)"
      using "1.prems" pc by auto
    have step: "GetProof_loop nodes j (int l) proof = GetProof_loop nodes pj (int (Suc l)) proof'"
      using True sibling_in_range [OF True "1.prems"(2) "1.prems"(1)] lpath
      by (subst GetProof_loop.simps)
        (simp add: Let_def index_ok store_ok gp go_mod2 shl_parity [OF l62] proof'_def sib_def
          add.commute)
    have "pj < int (length nodes)"
      using True "1.prems"(2) unfolding pj_def by linarith
    moreover have "Suc l + length (path_below_root pj) \<le> length (Path proof')"
      using "1.prems"(3) pc by (simp add: proof'_def)
    moreover have "Suc l + length (path_below_root pj) \<le> 63"
      using "1.prems"(4) pc by simp
    ultimately obtain p where
      p: "GetProof_loop nodes pj (int (Suc l)) proof' = Inr p"
      and plen: "length (Path p) = length (Path proof')"
      and psib: "\<forall>k < length (path_below_root pj).
                   Path p ! (Suc l + k) = nodes ! nat (GetSiblingIndex (path_below_root pj ! k))"
      and pframe: "\<forall>m. m < Suc l \<or> Suc l + length (path_below_root pj) \<le> m
                     \<longrightarrow> Path p ! m = Path proof' ! m"
      and pbits: "\<forall>b. bit (Indices p) b \<longleftrightarrow>
                     bit (Indices proof') b
                     \<or> (Suc l \<le> b \<and> b < Suc l + length (path_below_root pj)
                         \<and> odd (path_below_root pj ! (b - Suc l)))"
      using "1.IH" [OF True, unfolded gp, of "Suc l" proof'] "1.prems"(1) by blast
    have c1: "length (Path p) = length (Path proof)"
      using plen by (simp add: proof'_def)
    have c2: "Path p ! (l + k) = nodes ! nat (GetSiblingIndex (path_below_root j ! k))"
      if "k < length (path_below_root j)" for k
    proof (cases k)
      case 0
      have "Path p ! l = Path proof' ! l" using pframe by simp
      then show ?thesis using 0 lpath by (simp add: proof'_def pc sib_def)
    next
      case (Suc k')
      then show ?thesis using psib that by (simp add: pc)
    qed
    have c3: "Path p ! m = Path proof ! m"
      if "m < l \<or> l + length (path_below_root j) \<le> m" for m
    proof -
      have "Path p ! m = Path proof' ! m" using pframe that by (auto simp: pc)
      moreover have "m \<noteq> l" using that by (auto simp: pc)
      ultimately show ?thesis by (simp add: proof'_def)
    qed
    have c4: "bit (Indices p) b \<longleftrightarrow>
                bit (Indices proof) b
                \<or> (l \<le> b \<and> b < l + length (path_below_root j) \<and> odd (path_below_root j ! (b - l)))"
      for b
    proof -
      have "bit (Indices proof') b \<longleftrightarrow> bit (Indices proof) b \<or> (b = l \<and> odd j)"
        by (simp add: proof'_def bit_or_iff bit_parity_shift)
      then show ?thesis
        using pbits [rule_format, of b]
        by (cases "b = l") (auto simp: pc nth_Cons' Suc_diff_le)
    qed
    show ?thesis
      unfolding step using p c1 c2 c3 c4 by blast
  qed
qed


lemma log2_floor_pow: "log2_floor (2 ^ d) = d"
proof (induction d)
  case 0
  then show ?case by (simp add: log2_floor.simps)
next
  case (Suc d)
  have "\<not> (2::nat) ^ Suc d < 2" by simp
  then show ?case using Suc by (subst log2_floor.simps) simp
qed

lemma wrap64_pow_small:
  assumes "d \<le> 62"
  shows "wrap64 (2 ^ d) = 2 ^ d"
proof (rule wrap64_id)
  have a: "(2::int) ^ d \<le> 2 ^ 62" using assms by (rule pow2_mono_int)
  have b: "0 \<le> (2::int) ^ d" by simp
  show "- (2 ^ 63) \<le> (2::int) ^ d" by (rule order_trans [OF _ b]) simp
  show "(2::int) ^ d < 2 ^ 63" using a by simp
qed

lemma leaf_index_shape:
  assumes len: "int (length (Nodes t)) = 2 ^ d - 1"
    and i: "0 \<le> i" "i < GetLeavesAmount t"
  shows "leaf_index t i = 2 ^ (d - 1) - 1 + i"
    and "2 ^ (d - 1) \<le> leaf_index t i + 1"
    and "leaf_index t i + 1 < 2 ^ d"
    and "leaf_index t i < int (length (Nodes t))"
    and "0 \<le> leaf_index t i"
    and "length (path_below_root (leaf_index t i)) = d - 1"
proof -
  from valid_leaf_shape [OF len i]
  have d: "1 \<le> d" "d \<le> 62" and la: "GetLeavesAmount t = 2 ^ (d - 1)" by auto
  obtain e where e: "d = Suc e" using d by (cases d) auto
  show li: "leaf_index t i = 2 ^ (d - 1) - 1 + i"
    by (simp add: leaf_index_def la len e)
  show lo: "2 ^ (d - 1) \<le> leaf_index t i + 1"
    using i by (simp add: li)
  show hi: "leaf_index t i + 1 < 2 ^ d"
    using i la by (simp add: li e)
  show "leaf_index t i < int (length (Nodes t))"
    using hi len by simp
  have "(1::int) \<le> 2 ^ (d - 1)" by simp
  with lo show "0 \<le> leaf_index t i" by linarith
  show "length (path_below_root (leaf_index t i)) = d - 1"
    using lo hi by (intro path_length) (simp_all add: e)
qed

lemma odd_length_shape:
  assumes "int (length xs) = 2 ^ d - 1" "1 \<le> d"
  shows "odd (length xs)"
proof -
  obtain e where "d = Suc e" using assms(2) by (cases d) auto
  then have "odd (int (length xs))" using assms(1) by simp
  then show ?thesis by simp
qed

lemma GetProof_spec:
  assumes len: "int (length (Nodes t)) = 2 ^ d - 1"
    and i: "0 \<le> i" "i < GetLeavesAmount t"
  shows "\<exists>p. GetProof t i = Inr p
           \<and> length (Path p) = d
           \<and> (\<forall>k < d - 1.
                 Path p ! k = Nodes t ! nat (GetSiblingIndex (path_below_root (leaf_index t i) ! k)))
           \<and> Path p ! (d - 1) = Nodes t ! 0
           \<and> (\<forall>b. bit (Indices p) b \<longleftrightarrow> b < d - 1 \<and> odd (path_below_root (leaf_index t i) ! b))"
proof -
  from valid_leaf_shape [OF len i]
  have d: "1 \<le> d" "d \<le> 62" and la: "GetLeavesAmount t = 2 ^ (d - 1)" by auto
  note sh = leaf_index_shape [OF len i]
  define proof0 where
    "proof0 = \<lparr>Path = replicate d \<lparr>Value = None\<rparr>, Indices = 0\<rparr>"
  have odd: "odd (length (Nodes t))" by (rule odd_length_shape [OF len d(1)])
  have "\<exists>p. GetProof_loop (Nodes t) (leaf_index t i) (int 0) proof0 = Inr p
           \<and> length (Path p) = length (Path proof0)
           \<and> (\<forall>k < length (path_below_root (leaf_index t i)).
                 Path p ! (0 + k) = Nodes t ! nat (GetSiblingIndex (path_below_root (leaf_index t i) ! k)))
           \<and> (\<forall>m. m < 0 \<or> 0 + length (path_below_root (leaf_index t i)) \<le> m
                 \<longrightarrow> Path p ! m = Path proof0 ! m)
           \<and> (\<forall>b. bit (Indices p) b \<longleftrightarrow>
                 bit (Indices proof0) b
                 \<or> (0 \<le> b \<and> b < 0 + length (path_below_root (leaf_index t i))
                     \<and> odd (path_below_root (leaf_index t i) ! (b - 0))))"
    using d by (intro GetProof_loop_spec odd sh(4)) (simp_all add: sh(6) proof0_def)
  then obtain p1 where
    p1: "GetProof_loop (Nodes t) (leaf_index t i) 0 proof0 = Inr p1"
    and p1len: "length (Path p1) = d"
    and p1sib: "\<forall>k < d - 1.
                  Path p1 ! k = Nodes t ! nat (GetSiblingIndex (path_below_root (leaf_index t i) ! k))"
    and p1bits: "\<forall>b. bit (Indices p1) b \<longleftrightarrow> b < d - 1 \<and> odd (path_below_root (leaf_index t i) ! b)"
    by (auto simp: sh(6) proof0_def)
  have nonempty: "0 < length (Nodes t)"
    using odd by (cases "Nodes t") auto
  have logd: "log2_floor (nat (wrap64 (int (length (Nodes t)) + 1))) = d"
    using d by (simp add: len wrap64_pow_small log2_floor_pow nat_power_eq)
  have notinvalid: "\<not> (i \<ge> GetLeavesAmount t \<or> i < 0)" using i by simp
  have res: "GetProof t i = Inr (p1\<lparr>Path := (Path p1)[d - 1 := Nodes t ! 0]\<rparr>)"
    unfolding GetProof_def Let_def logd leaf_index_def [symmetric] proof0_def [symmetric]
    using notinvalid p1 p1len d nonempty
    by (simp add: Root_def index_ok store_ok nat_diff_distrib')
  show ?thesis
    unfolding res using p1len p1sib p1bits d by simp
qed


lemma example_tree_leaves: "GetLeavesAmount example_tree = 2"
  by (simp add: GetLeavesAmount_def example_tree_def wrap64_def go_div_def)

subsection \<open>The layout of a proof\<close>

lemma path_nth:
  "k < length (path_below_root j) \<Longrightarrow> path_below_root j ! k = (j + 1) div 2 ^ k - 1"
proof (induction k arbitrary: j)
  case 0
  then have "0 < j" by (cases "0 < j") (auto simp: path_nil)
  from path_cons [OF this] show ?case by simp
next
  case (Suc k)
  then have pos: "0 < j" by (cases "0 < j") (auto simp: path_nil)
  have pc: "path_below_root j = j # path_below_root ((j - 1) div 2)"
    by (rule path_cons [OF pos])
  have "k < length (path_below_root ((j - 1) div 2))"
    using Suc.prems by (simp add: pc)
  from Suc.IH [OF this]
  have "path_below_root j ! Suc k = ((j - 1) div 2 + 1) div 2 ^ k - 1"
    by (simp add: pc)
  moreover have "(j - 1) div 2 + 1 = (j + 1) div 2" by presburger
  moreover have "(j + 1) div 2 div 2 ^ k = (j + 1) div 2 ^ Suc k"
    by (simp add: zdiv_zmult2_eq)
  ultimately show ?case by simp
qed

text \<open>
  Claim C4. For a tree of depth \<open>d \<ge> 1\<close> (its array has \<open>2^d - 1\<close> nodes, hence
  \<open>2^(d-1)\<close> leaves) and a leaf index \<open>i\<close> that \<open>GetProof\<close> accepts, \<open>GetProof\<close>
  returns a proof whose path has exactly \<open>d\<close> entries. The leaf is the node
  \<open>2^(d-1) - 1 + i\<close> of the array, and the \<open>k\<close>-th node of its walk to the root is
  the node \<open>x = (2^(d-1) + i) div 2^k - 1\<close>. For each \<open>k < d - 1\<close> this node is not
  the root, and entry \<open>k\<close> of the path is its sibling: the node \<open>x - 1\<close> when \<open>x\<close> is
  even (a right child), the node \<open>x + 1\<close> when \<open>x\<close> is odd (a left child). The last
  entry, \<open>d - 1\<close>, is node 0 of the array, the root of the tree, which is the sibling
  of no node.
\<close>

theorem GetProof_path_layout:
  assumes "1 \<le> d" and "int (length (Nodes t)) = 2 ^ d - 1"
    and "0 \<le> i" and "i < GetLeavesAmount t"
  shows "GetLeavesAmount t = 2 ^ (d - 1)
         \<and> (\<exists>p. GetProof t i = Inr p
               \<and> length (Path p) = d
               \<and> (\<forall>k < d - 1.
                     let x = (2 ^ (d - 1) + i) div 2 ^ k - 1;
                         y = (if even x then x - 1 else x + 1)
                     in 0 < x \<and> x < int (length (Nodes t))
                        \<and> 0 < y \<and> y < int (length (Nodes t))
                        \<and> Path p ! k = Nodes t ! nat y)
               \<and> 0 < length (Nodes t)
               \<and> Path p ! (d - 1) = Nodes t ! 0)"
proof -
  note sh = leaf_index_shape [OF assms(2-4)]
  from valid_leaf_shape [OF assms(2-4)]
  have la: "GetLeavesAmount t = 2 ^ (d - 1)" by simp
  have odd: "odd (length (Nodes t))" by (rule odd_length_shape [OF assms(2,1)])
  then have nonempty: "0 < length (Nodes t)" by (cases "Nodes t") auto
  obtain p where p: "GetProof t i = Inr p" "length (Path p) = d"
    and sib: "\<forall>k < d - 1.
          Path p ! k = Nodes t ! nat (GetSiblingIndex (path_below_root (leaf_index t i) ! k))"
    and root: "Path p ! (d - 1) = Nodes t ! 0"
    using GetProof_spec [OF assms(2-4)] by blast
  have lvl: "let x = (2 ^ (d - 1) + i) div 2 ^ k - 1;
                 y = (if even x then x - 1 else x + 1)
             in 0 < x \<and> x < int (length (Nodes t))
                \<and> 0 < y \<and> y < int (length (Nodes t))
                \<and> Path p ! k = Nodes t ! nat y"
    if k: "k < d - 1" for k
  proof -
    define x where "x = path_below_root (leaf_index t i) ! k"
    have kl: "k < length (path_below_root (leaf_index t i))"
      using k sh(6) by simp
    have xv: "(2 ^ (d - 1) + i) div 2 ^ k - 1 = x"
      using path_nth [OF kl] by (simp add: x_def sh(1) algebra_simps)
    have "x \<in> set (path_below_root (leaf_index t i))"
      using kl by (simp add: x_def)
    then have xpos: "0 < x" and xle: "x \<le> leaf_index t i"
      using path_pos by blast+
    have xr: "x < int (length (Nodes t))" using xle sh(4) by linarith
    have sr: "0 \<le> GetSiblingIndex x \<and> GetSiblingIndex x < int (length (Nodes t))"
      by (rule sibling_in_range [OF xpos xr odd])
    have sv: "GetSiblingIndex x = (if even x then x - 1 else x + 1)"
      using xpos by (simp add: GetSiblingIndex_pos)
    have spos: "0 < (if even x then x - 1 else x + 1)"
      using xpos by presburger
    have "Path p ! k = Nodes t ! nat (GetSiblingIndex x)"
      using sib k by (simp add: x_def)
    then show ?thesis
      unfolding Let_def xv using xpos xr sr spos by (simp add: sv)
  qed
  show ?thesis
    using la p lvl nonempty root by blast
qed

text \<open>
  The theorem at the depth-2 tree and its second leaf: the leaf is node 2, a right
  child, its sibling is node 1, and the proof is the node 1 followed by the root.
\<close>

theorem GetProof_path_layout_witness:
  "(1::nat) \<le> 2 \<and> int (length (Nodes example_tree)) = 2 ^ 2 - 1
   \<and> (0::int) \<le> 1 \<and> 1 < GetLeavesAmount example_tree
   \<and> GetLeavesAmount example_tree = 2 ^ (2 - 1)
   \<and> (\<exists>p. GetProof example_tree 1 = Inr p
         \<and> length (Path p) = 2
         \<and> (\<forall>k < 2 - 1.
               let x = (2 ^ (2 - 1) + 1) div 2 ^ k - (1::int);
                   y = (if even x then x - 1 else x + 1)
               in 0 < x \<and> x < int (length (Nodes example_tree))
                  \<and> 0 < y \<and> y < int (length (Nodes example_tree))
                  \<and> Path p ! k = Nodes example_tree ! nat y)
         \<and> 0 < length (Nodes example_tree)
         \<and> Path p ! (2 - 1) = Nodes example_tree ! 0)
   \<and> GetProof example_tree 1
       = Inr \<lparr>Path = [\<lparr>Value = Some 10\<rparr>, \<lparr>Value = Some 30\<rparr>], Indices = 0\<rparr>"
proof -
  have h2: "int (length (Nodes example_tree)) = 2 ^ 2 - 1"
    by (simp add: example_tree_def)
  have h4: "1 < GetLeavesAmount example_tree"
    by (simp add: example_tree_leaves)
  have run: "GetProof example_tree 1
       = Inr \<lparr>Path = [\<lparr>Value = Some 10\<rparr>, \<lparr>Value = Some 30\<rparr>], Indices = 0\<rparr>"
    by code_simp
  have layout: "GetLeavesAmount example_tree = 2 ^ (2 - 1)
   \<and> (\<exists>p. GetProof example_tree 1 = Inr p
         \<and> length (Path p) = 2
         \<and> (\<forall>k < 2 - 1.
               let x = (2 ^ (2 - 1) + 1) div 2 ^ k - (1::int);
                   y = (if even x then x - 1 else x + 1)
               in 0 < x \<and> x < int (length (Nodes example_tree))
                  \<and> 0 < y \<and> y < int (length (Nodes example_tree))
                  \<and> Path p ! k = Nodes example_tree ! nat y)
         \<and> 0 < length (Nodes example_tree)
         \<and> Path p ! (2 - 1) = Nodes example_tree ! 0)"
    using h2 h4 GetProof_path_layout [of 2 example_tree 1] by simp
  have "(1::nat) \<le> 2" and "(0::int) \<le> 1"
    by simp_all
  then show ?thesis
    using h2 h4 run conjunct1 [OF layout] conjunct2 [OF layout]
    by (intro conjI) assumption+
qed

subsection \<open>The direction bits\<close>

text \<open>
  Claim C1, as the code has it. \<open>GetProof\<close> sets bit \<open>k\<close> with \<open>j % 2 << level\<close>, so for
  a tree of depth \<open>d \<ge> 1\<close> and an accepted leaf index, bit \<open>k\<close> of \<open>Indices\<close> is set
  if and only if the array index of the \<open>k\<close>-th node of the leaf-to-root walk is odd
  (the node is a left child, its recorded sibling a right child); no bit is set from
  position \<open>d - 1\<close> on.
\<close>

theorem GetProof_indices_odd:
  assumes "1 \<le> d" and "int (length (Nodes t)) = 2 ^ d - 1"
    and "0 \<le> i" and "i < GetLeavesAmount t"
  shows "\<exists>p. GetProof t i = Inr p
           \<and> (\<forall>k < d - 1. bit (Indices p) k \<longleftrightarrow> odd (path_below_root (leaf_index t i) ! k))
           \<and> (\<forall>k \<ge> d - 1. \<not> bit (Indices p) k)"
  using GetProof_spec [OF assms(2-4)] by fastforce

theorem GetProof_indices_odd_witness:
  "(1::nat) \<le> 2 \<and> int (length (Nodes example_tree)) = 2 ^ 2 - 1
   \<and> (0::int) \<le> 0 \<and> 0 < GetLeavesAmount example_tree
   \<and> (\<exists>p. GetProof example_tree 0 = Inr p
           \<and> (\<forall>k < 2 - 1. bit (Indices p) k
                 \<longleftrightarrow> odd (path_below_root (leaf_index example_tree 0) ! k))
           \<and> (\<forall>k \<ge> 2 - 1. \<not> bit (Indices p) k))"
proof -
  have h2: "int (length (Nodes example_tree)) = 2 ^ 2 - 1"
    by (simp add: example_tree_def)
  have h4: "0 < GetLeavesAmount example_tree"
    by (simp add: example_tree_leaves)
  show ?thesis
    using h2 h4 GetProof_indices_odd [of 2 example_tree 0] by simp
qed

text \<open>
  The claim as stated (bit \<open>k\<close> set iff the index is even) fails on the depth-2 tree
  at leaf 0: the leaf sits at array index 1, which is odd, and bit 0 is set.
\<close>

theorem GetProof_indices_even_counterexample:
  "\<exists>p. GetProof example_tree 0 = Inr p
       \<and> Indices p = 1
       \<and> path_below_root (leaf_index example_tree 0) ! 0 = 1
       \<and> \<not> (bit (Indices p) 0 \<longleftrightarrow> even (path_below_root (leaf_index example_tree 0) ! 0))"
proof -
  have "GetProof example_tree 0
          = Inr \<lparr>Path = [\<lparr>Value = Some 20\<rparr>, \<lparr>Value = Some 30\<rparr>], Indices = 1\<rparr>"
    by code_simp
  moreover have "path_below_root (leaf_index example_tree 0) = [1]"
    by code_simp
  ultimately show ?thesis by simp
qed

subsection \<open>The ancestor walk of SetLeaf\<close>

lemma computeChildrenHash_cong:
  assumes "length nodes' = length nodes"
    and "nodes' ! nat (a * 2 + 1) = nodes ! nat (a * 2 + 1)"
    and "nodes' ! nat (a * 2 + 2) = nodes ! nat (a * 2 + 2)"
  shows "computeChildrenHash H a nodes' = computeChildrenHash H a nodes"
  using assms by (simp add: computeChildrenHash_def getChildrenOf_def index_def)

lemma computeChildrenHash_range:
  assumes "computeChildrenHash H a nodes = Inr n"
  shows "0 \<le> a * 2 + 1 \<and> a * 2 + 2 < int (length nodes)"
  using assms
  by (auto simp: computeChildrenHash_def getChildrenOf_def index_def split: if_splits sum.splits)

lemma SetLeaf_loop_spec:
  assumes "SetLeaf_loop H j nodes = (nodes', None)"
  shows "length nodes' = length nodes
         \<and> (\<forall>m. int m \<notin> set (path_below_root j) \<longrightarrow> nodes' ! m = nodes ! m)
         \<and> (\<forall>a \<in> set (path_below_root j). computeChildrenHash H a nodes' = Inr (nodes' ! nat a))"
  using assms
proof (induction j arbitrary: nodes rule: path_below_root.induct)
  case (1 j)
  show ?case
  proof (cases "0 < j")
    case False
    with "1.prems" show ?thesis
      by (subst (asm) SetLeaf_loop.simps) (simp add: path_nil)
  next
    case True
    define pj where "pj = (j - 1) div 2"
    have pc: "path_below_root j = j # path_below_root pj"
      unfolding pj_def by (rule path_cons [OF True])
    have gp: "GetParentIndex j = pj"
      unfolding pj_def by (rule GetParentIndex_pos [OF True])
    have pjlt: "pj < j" using True unfolding pj_def by linarith
    from "1.prems" True obtain node nodes1 where
      node: "computeChildrenHash H j nodes = Inr node"
      and st: "store nodes j node = Inr nodes1"
      and rest: "SetLeaf_loop H pj nodes1 = (nodes', None)"
      by (subst (asm) SetLeaf_loop.simps)
        (auto simp: gp split: sum.splits failure.splits)
    from computeChildrenHash_range [OF node] True
    have jr: "j < int (length nodes)" by linarith
    have n1: "nodes1 = nodes[nat j := node]"
      using st True jr by (simp add: store_def)
    from "1.IH" [OF True, unfolded gp, OF rest]
    have len: "length nodes' = length nodes1"
      and frame: "\<forall>m. int m \<notin> set (path_below_root pj) \<longrightarrow> nodes' ! m = nodes1 ! m"
      and loc: "\<forall>a \<in> set (path_below_root pj). computeChildrenHash H a nodes' = Inr (nodes' ! nat a)"
      by auto
    have below: "x \<le> pj" if "x \<in> set (path_below_root pj)" for x
      using path_pos [OF that] by simp
    have notin: "int m \<notin> set (path_below_root pj)" if "j \<le> int m" for m
      using below [of "int m"] that pjlt by auto
    have c1: "length nodes' = length nodes"
      using len n1 by simp
    have c2: "nodes' ! m = nodes ! m" if "int m \<notin> set (path_below_root j)" for m
    proof -
      have "int m \<notin> set (path_below_root pj)" "int m \<noteq> j"
        using that by (auto simp: pc)
      moreover from this True have "nat j \<noteq> m" by auto
      ultimately show ?thesis using frame n1 by auto
    qed
    have cj: "computeChildrenHash H j nodes' = Inr (nodes' ! nat j)"
    proof -
      have "nat (j * 2 + 1) \<noteq> nat j" "nat (j * 2 + 2) \<noteq> nat j"
        using True by auto
      then have a: "nodes' ! nat (j * 2 + 1) = nodes ! nat (j * 2 + 1)"
        and b: "nodes' ! nat (j * 2 + 2) = nodes ! nat (j * 2 + 2)"
        using frame notin [of "nat (j * 2 + 1)"] notin [of "nat (j * 2 + 2)"] True n1 by auto
      have "nodes' ! nat j = nodes1 ! nat j"
        using frame notin [of "nat j"] True by auto
      then have "nodes' ! nat j = node"
        using n1 jr True by simp
      then show ?thesis
        using computeChildrenHash_cong [OF c1 a b, of H] node by simp
    qed
    show ?thesis
      using c1 c2 cj loc by (auto simp: pc)
  qed
qed

subsection \<open>Building the empty tree\<close>

lemma TreeNode_update_Value [simp]: "(n :: TreeNode)\<lparr>Value := v\<rparr> = \<lparr>Value = v\<rparr>"
  by (cases n) simp

lemma fill_level_spec:
  assumes "0 \<le> f" "0 \<le> j" "f + n \<le> int (length nodes)"
  shows "\<exists>nodes'. fill_level nodes f n j lv = Inr nodes'
           \<and> length nodes' = length nodes
           \<and> (\<forall>m < length nodes.
                 nodes' ! m = (if f + j \<le> int m \<and> int m < f + n then \<lparr>Value = lv\<rparr> else nodes ! m))"
  using assms
proof (induction "nat (n - j)" arbitrary: j nodes)
  case 0
  then have "\<not> j < n" by simp
  then show ?case
    by (subst fill_level.simps) auto
next
  case (Suc k)
  then have lt: "j < n" by linarith
  have r: "0 \<le> f + j" "f + j < int (length nodes)"
    using Suc.prems lt by auto
  define nodes1 where "nodes1 = nodes[nat (f + j) := \<lparr>Value = lv\<rparr>]"
  have step: "fill_level nodes f n j lv = fill_level nodes1 f n (j + 1) lv"
    using lt r by (subst fill_level.simps) (simp add: index_ok store_ok nodes1_def)
  have "k = nat (n - (j + 1))" using Suc.hyps(2) by linarith
  moreover have "0 \<le> j + 1" using Suc.prems by simp
  moreover have "f + n \<le> int (length nodes1)" using Suc.prems by (simp add: nodes1_def)
  ultimately obtain nodes' where
    a: "fill_level nodes1 f n (j + 1) lv = Inr nodes'"
    and b: "length nodes' = length nodes1"
    and c: "\<forall>m < length nodes1.
              nodes' ! m = (if f + (j + 1) \<le> int m \<and> int m < f + n then \<lparr>Value = lv\<rparr>
                            else nodes1 ! m)"
    using Suc.hyps(1) [of "j + 1" nodes1] Suc.prems(1) by blast
  have "nodes' ! m = (if f + j \<le> int m \<and> int m < f + n then \<lparr>Value = lv\<rparr> else nodes ! m)"
    if "m < length nodes" for m
  proof (cases "int m = f + j")
    case True
    then have "m = nat (f + j)" by simp
    then show ?thesis using c that lt True by (simp add: nodes1_def)
  next
    case False
    then have "m \<noteq> nat (f + j)" using r by auto
    then show ?thesis using c that False by (auto simp: nodes1_def)
  qed
  then show ?case
    unfolding step using a b by (simp add: nodes1_def)
qed


lemma computeChildrenHash_eval:
  assumes "0 \<le> a" "a * 2 + 2 < int (length nodes)"
  shows "computeChildrenHash H a nodes
           = computeNodeHash H (nodes ! nat (a * 2 + 1)) (nodes ! nat (a * 2 + 2))"
  using assms by (simp add: computeChildrenHash_def getChildrenOf_def index_def)

lemma computeNodeHash_Value:
  assumes "computeNodeHash H l r = Inr n"
  shows "n = \<lparr>Value = Value n\<rparr>"
  by (cases n) simp

lemma NewEmptyTree_loop_done:
  "NewEmptyTree_loop H D D na f lv nodes = Inr nodes"
  by (subst NewEmptyTree_loop.simps) simp

lemma NewEmptyTree_loop_spec:
  fixes D e :: nat
  assumes "1 \<le> e" "e \<le> D" and len: "int (length nodes) = 2 ^ D - 1"
    and inv_a: "\<And>a::nat. 2 ^ e - 1 \<le> int a \<Longrightarrow> 2 * int a + 2 < 2 ^ D - 1
                  \<Longrightarrow> computeChildrenHash H (int a) nodes = Inr (nodes ! a)"
    and inv_b: "e < D \<Longrightarrow> \<exists>pv. (\<forall>m::nat. 2 ^ e - 1 \<le> int m \<and> int m \<le> 2 * (2 ^ e - 1)
                                      \<longrightarrow> nodes ! m = \<lparr>Value = pv\<rparr>)
                             \<and> computeNodeHash H \<lparr>Value = pv\<rparr> \<lparr>Value = pv\<rparr> = Inr \<lparr>Value = lv\<rparr>"
  shows "case pairwise_hash H (e - 1) \<lparr>Value = lv\<rparr> of
           Inl err \<Rightarrow>
             NewEmptyTree_loop H (int D) (int D - int e) (2 ^ (e - 1)) (2 ^ e - 1) lv nodes
               = Inl (wrap_error ''compute hash: '' err)
         | Inr r \<Rightarrow>
             (\<exists>nodes'. NewEmptyTree_loop H (int D) (int D - int e) (2 ^ (e - 1)) (2 ^ e - 1) lv nodes
                          = Inr nodes'
                \<and> length nodes' = length nodes \<and> nodes' ! 0 = r
                \<and> (\<forall>a::nat. 2 * int a + 2 < 2 ^ D - 1
                      \<longrightarrow> computeChildrenHash H (int a) nodes' = Inr (nodes' ! a)))"
  using assms
proof (induction e arbitrary: nodes lv)
  case 0
  then show ?case by simp
next
  case (Suc e')
  define P :: int where "P = 2 ^ e'"
  define Q :: int where "Q = 2 ^ D"
  have P1: "1 \<le> P" by (simp add: P_def)
  have PQ: "2 * P \<le> Q"
    using pow2_mono_int [OF Suc.prems(2)] by (simp add: P_def Q_def)
  have PQ4: "4 * P \<le> Q" if "Suc e' < D"
  proof -
    have "Suc (Suc e') \<le> D" using that by simp
    from pow2_mono_int [OF this] show ?thesis by (simp add: P_def Q_def)
  qed
  have PQeq: "2 * P = Q" if "\<not> Suc e' < D"
  proof -
    have "Suc e' = D" using that Suc.prems(2) by simp
    then show ?thesis by (auto simp: P_def Q_def)
  qed
  have len: "int (length nodes) = Q - 1"
    using Suc.prems(3) by (simp add: Q_def)
  have lenpos: "0 < length nodes" using len PQ P1 by auto
  have i_lt: "int D - int (Suc e') < int D" by simp
  obtain nodes1 where
    fill: "fill_level nodes (P - 1) P 0 lv = Inr nodes1"
    and len1: "length nodes1 = length nodes"
    and n1: "\<forall>m < length nodes.
               nodes1 ! m = (if P - 1 + 0 \<le> int m \<and> int m < P - 1 + P then \<lparr>Value = lv\<rparr>
                             else nodes ! m)"
    using fill_level_spec [of "P - 1" 0 P nodes lv] P1 PQ len by auto
  have n1_in: "nodes1 ! m = \<lparr>Value = lv\<rparr>" if "P - 1 \<le> int m" "int m < 2 * P - 1" for m
  proof -
    have "m < length nodes" using that PQ len by linarith
    then show ?thesis using n1 that by simp
  qed
  have n1_out: "nodes1 ! m = nodes ! m" if "2 * P - 1 \<le> int m" "m < length nodes" for m
    using n1 that by simp
  have inv1: "computeChildrenHash H (int a) nodes1 = Inr (nodes1 ! a)"
    if a: "P - 1 \<le> int a" "2 * int a + 2 < Q - 1" for a
  proof (cases "2 * P - 1 \<le> int a")
    case True
    have "computeChildrenHash H (int a) nodes1 = computeChildrenHash H (int a) nodes"
      using True a len P1
      by (intro computeChildrenHash_cong len1 n1_out) (auto simp: nat_add_distrib nat_mult_distrib)
    moreover have "computeChildrenHash H (int a) nodes = Inr (nodes ! a)"
      using Suc.prems(4) [of a] True a by (simp add: P_def Q_def)
    moreover have "nodes1 ! a = nodes ! a"
      using True a len by (intro n1_out) auto
    ultimately show ?thesis by simp
  next
    case False
    then have ain: "nodes1 ! a = \<lparr>Value = lv\<rparr>" using a by (intro n1_in) auto
    have lt: "Suc e' < D"
    proof (rule ccontr)
      assume "\<not> Suc e' < D"
      from PQeq [OF this] a show False by linarith
    qed
    from Suc.prems(5) [OF lt] obtain pv where
      pv: "\<forall>m::nat. 2 * P - 1 \<le> int m \<and> int m \<le> 2 * (2 * P - 1) \<longrightarrow> nodes ! m = \<lparr>Value = pv\<rparr>"
      and hv: "computeNodeHash H \<lparr>Value = pv\<rparr> \<lparr>Value = pv\<rparr> = Inr \<lparr>Value = lv\<rparr>"
      by (auto simp: P_def)
    have c1: "nodes1 ! nat (int a * 2 + 1) = \<lparr>Value = pv\<rparr>"
    proof -
      have "nodes1 ! nat (int a * 2 + 1) = nodes ! nat (int a * 2 + 1)"
        using a len by (intro n1_out) auto
      also have "\<dots> = \<lparr>Value = pv\<rparr>"
        using pv [rule_format, of "nat (int a * 2 + 1)"] a False by auto
      finally show ?thesis .
    qed
    have c2: "nodes1 ! nat (int a * 2 + 2) = \<lparr>Value = pv\<rparr>"
    proof -
      have "nodes1 ! nat (int a * 2 + 2) = nodes ! nat (int a * 2 + 2)"
        using a len by (intro n1_out) auto
      also have "\<dots> = \<lparr>Value = pv\<rparr>"
        using pv [rule_format, of "nat (int a * 2 + 2)"] a False by auto
      finally show ?thesis .
    qed
    have "computeChildrenHash H (int a) nodes1
            = computeNodeHash H (nodes1 ! nat (int a * 2 + 1)) (nodes1 ! nat (int a * 2 + 2))"
      using a len len1 by (intro computeChildrenHash_eval) auto
    then show ?thesis using c1 c2 hv ain by simp
  qed
  show ?case
  proof (cases "e' = 0")
    case True
    then have P: "P = 1" by (simp add: P_def)
    have run: "NewEmptyTree_loop H (int D) (int D - int (Suc e')) (2 ^ (Suc e' - 1))
                 (2 ^ Suc e' - 1) lv nodes = Inr nodes1"
      using fill i_lt True P
      by (subst NewEmptyTree_loop.simps)
        (simp add: Let_def P_def NewEmptyTree_loop_done)
    have root: "nodes1 ! 0 = \<lparr>Value = lv\<rparr>"
      using n1_in [of 0] P by simp
    have "computeChildrenHash H (int a) nodes1 = Inr (nodes1 ! a)"
      if "2 * int a + 2 < 2 ^ D - 1" for a
      using inv1 [of a] that P by (simp add: Q_def)
    then show ?thesis
      using True run len1 root by simp
  next
    case False
    then obtain e'' where e'': "e' = Suc e''" by (cases e') auto
    have P2: "2 \<le> P" by (simp add: P_def e'')
    have hashidx: "computeChildrenHash H (P - 1 - 1) nodes1
                     = computeNodeHash H \<lparr>Value = lv\<rparr> \<lparr>Value = lv\<rparr>"
    proof -
      have "computeChildrenHash H (P - 1 - 1) nodes1
              = computeNodeHash H (nodes1 ! nat ((P - 1 - 1) * 2 + 1)) (nodes1 ! nat ((P - 1 - 1) * 2 + 2))"
        using P2 PQ len len1 by (intro computeChildrenHash_eval) auto
      moreover have "nodes1 ! nat ((P - 1 - 1) * 2 + 1) = \<lparr>Value = lv\<rparr>"
        using P2 by (intro n1_in) auto
      moreover have "nodes1 ! nat ((P - 1 - 1) * 2 + 2) = \<lparr>Value = lv\<rparr>"
        using P2 by (intro n1_in) auto
      ultimately show ?thesis by simp
    qed
    have halve: "go_div (2 ^ e') 2 = 2 ^ (e' - 1)"
      by (simp add: go_div2 e'')
    show ?thesis
    proof (cases "computeNodeHash H \<lparr>Value = lv\<rparr> \<lparr>Value = lv\<rparr>")
      case (Inl err)
      have "NewEmptyTree_loop H (int D) (int D - int (Suc e')) (2 ^ (Suc e' - 1))
              (2 ^ Suc e' - 1) lv nodes = Inl (wrap_error ''compute hash: '' err)"
        using fill i_lt P2 hashidx Inl
        by (subst NewEmptyTree_loop.simps) (simp add: Let_def P_def)
      then show ?thesis using Inl by (simp add: e'')
    next
      case (Inr node)
      define lv' where "lv' = Value node"
      have node: "node = \<lparr>Value = lv'\<rparr>"
        unfolding lv'_def by (rule computeNodeHash_Value [OF Inr])
      have run: "NewEmptyTree_loop H (int D) (int D - int (Suc e')) (2 ^ (Suc e' - 1))
                   (2 ^ Suc e' - 1) lv nodes
                 = NewEmptyTree_loop H (int D) (int D - int e') (2 ^ (e' - 1)) (2 ^ e' - 1) lv' nodes1"
        using fill i_lt P2 hashidx Inr halve
        by (subst NewEmptyTree_loop.simps)
          (simp add: Let_def P_def lv'_def algebra_simps)
      have ih: "case pairwise_hash H (e' - 1) \<lparr>Value = lv'\<rparr> of
           Inl err \<Rightarrow>
             NewEmptyTree_loop H (int D) (int D - int e') (2 ^ (e' - 1)) (2 ^ e' - 1) lv' nodes1
               = Inl (wrap_error ''compute hash: '' err)
         | Inr r \<Rightarrow>
             (\<exists>nodes'. NewEmptyTree_loop H (int D) (int D - int e') (2 ^ (e' - 1)) (2 ^ e' - 1) lv' nodes1
                          = Inr nodes'
                \<and> length nodes' = length nodes1 \<and> nodes' ! 0 = r
                \<and> (\<forall>a::nat. 2 * int a + 2 < 2 ^ D - 1
                      \<longrightarrow> computeChildrenHash H (int a) nodes' = Inr (nodes' ! a)))"
      proof (rule Suc.IH)
        show "1 \<le> e'" using e'' by simp
        show "e' \<le> D" using Suc.prems(2) by simp
        show "int (length nodes1) = 2 ^ D - 1" using len len1 by (simp add: Q_def)
        show "computeChildrenHash H (int a) nodes1 = Inr (nodes1 ! a)"
          if "2 ^ e' - 1 \<le> int a" "2 * int a + 2 < 2 ^ D - 1" for a
          using inv1 [of a] that by (simp add: P_def Q_def)
        show "\<exists>pv. (\<forall>m::nat. 2 ^ e' - 1 \<le> int m \<and> int m \<le> 2 * (2 ^ e' - 1)
                        \<longrightarrow> nodes1 ! m = \<lparr>Value = pv\<rparr>)
                 \<and> computeNodeHash H \<lparr>Value = pv\<rparr> \<lparr>Value = pv\<rparr> = Inr \<lparr>Value = lv'\<rparr>"
        proof (intro exI [of _ lv] conjI allI impI)
          fix m :: nat
          assume "2 ^ e' - 1 \<le> int m \<and> int m \<le> 2 * (2 ^ e' - 1)"
          then show "nodes1 ! m = \<lparr>Value = lv\<rparr>"
            by (intro n1_in) (auto simp: P_def)
        next
          show "computeNodeHash H \<lparr>Value = lv\<rparr> \<lparr>Value = lv\<rparr> = Inr \<lparr>Value = lv'\<rparr>"
            using Inr node by simp
        qed
      qed
      have pw: "pairwise_hash H (Suc e' - 1) \<lparr>Value = lv\<rparr> = pairwise_hash H (e' - 1) \<lparr>Value = lv'\<rparr>"
        using Inr node by (simp add: e'')
      show ?thesis
        unfolding pw run using ih len1 by (auto split: sum.splits)
    qed
  qed
qed

lemma shl_one_small: "n \<le> 62 \<Longrightarrow> shl 1 (int n) = 2 ^ n"
  by (simp add: shl_def wrap64_pow_small)

lemma shl_one_63: "shl 1 63 = - 9223372036854775808"
  by (simp add: shl_def wrap64_def)

lemma shl_one_big: "64 \<le> n \<Longrightarrow> shl 1 (int n) = 0"
  by (simp add: shl_def wrap64_pow_big)

lemma make_length:
  assumes "1 \<le> D" "D \<le> 63"
  shows "wrap64 (shl 1 (int D) - 1) = 2 ^ D - 1"
proof (cases "D = 63")
  case True
  then show ?thesis using shl_one_63 by (simp add: wrap64_def)
next
  case False
  then have D: "D \<le> 62" using assms by simp
  have a: "(2::int) ^ D \<le> 2 ^ 62" using D by (rule pow2_mono_int)
  have b: "1 \<le> (2::int) ^ D" by simp
  have "wrap64 (2 ^ D - 1) = 2 ^ D - 1"
  proof (rule wrap64_id)
    have c: "0 \<le> (2::int) ^ D - 1" using b by linarith
    show "- (2 ^ 63) \<le> (2::int) ^ D - 1" by (rule order_trans [OF _ c]) simp
    show "(2::int) ^ D - 1 < 2 ^ 63" using a by simp
  qed
  then show ?thesis by (simp add: shl_one_small [OF D])
qed

lemma make_length_big:
  assumes "64 \<le> D"
  shows "wrap64 (shl 1 (int D) - 1) = - 1"
  by (simp add: shl_one_big [OF assms] wrap64_def)

lemma make_TreeNodes_admitted:
  assumes "1 \<le> D" "D \<le> 45"
  shows "make_TreeNodes (wrap64 (shl 1 (int D) - 1))
           = Inr (replicate (nat (2 ^ D - 1)) \<lparr>Value = None\<rparr>)"
proof -
  have D63: "D \<le> 63" using assms(2) by simp
  have a: "(2::int) ^ D \<le> 2 ^ 45" using assms(2) by (rule pow2_mono_int)
  have b: "1 \<le> (2::int) ^ D" by simp
  have "\<not> (2::int) ^ D - 1 < 0" using b by linarith
  moreover have "\<not> maxAlloc < (2 ^ D - 1) * 8"
    using a by (simp add: maxAlloc_def)
  ultimately show ?thesis
    by (simp add: make_TreeNodes_def make_length [OF assms(1) D63])
qed

lemma make_TreeNodes_refused:
  assumes "46 \<le> D"
  shows "make_TreeNodes (wrap64 (shl 1 (int D) - 1)) = Inl (Panic ''makeslice: len out of range'')"
proof (cases "D \<le> 63")
  case True
  have D1: "1 \<le> D" using assms by simp
  have "(2::int) ^ 46 \<le> 2 ^ D" using assms by (rule pow2_mono_int)
  then have "maxAlloc < (2 ^ D - 1) * 8"
    by (simp add: maxAlloc_def)
  then show ?thesis
    by (simp add: make_TreeNodes_def make_length [OF D1 True])
next
  case False
  then have "64 \<le> D" by simp
  then show ?thesis
    by (simp add: make_TreeNodes_def make_length_big)
qed

lemma NewEmptyTree_spec:
  fixes D :: nat
  assumes "1 \<le> D" "D \<le> 45"
  shows "case pairwise_hash H (D - 1) \<lparr>Value = lv\<rparr> of
           Inl err \<Rightarrow> NewEmptyTree H (int D) lv = Inl (wrap_error ''compute hash: '' err)
         | Inr r \<Rightarrow>
             (\<exists>t. NewEmptyTree H (int D) lv = Inr t
                \<and> int (length (Nodes t)) = 2 ^ D - 1 \<and> Nodes t ! 0 = r \<and> tree_invariant H t)"
proof -
  define nodes0 where "nodes0 = replicate (nat (2 ^ D - 1)) \<lparr>Value = None\<rparr>"
  have len0: "int (length nodes0) = 2 ^ D - 1"
    by (simp add: nodes0_def)
  have amount: "shl 1 (int D - 1) = 2 ^ (D - 1)"
  proof -
    have eq: "int D - 1 = int (D - 1)" using assms by simp
    have "D - 1 \<le> 62" using assms by simp
    then show ?thesis unfolding eq by (rule shl_one_small)
  qed
  have unfold: "NewEmptyTree H (int D) lv =
        (case NewEmptyTree_loop H (int D) (int D - int D) (2 ^ (D - 1)) (2 ^ D - 1) lv nodes0 of
           Inl e \<Rightarrow> Inl e
         | Inr nodes \<Rightarrow> Inr \<lparr>Nodes = nodes\<rparr>)"
    using assms(1) len0
    by (simp add: NewEmptyTree_def make_TreeNodes_admitted [OF assms] amount
        nodes0_def [symmetric])
  have spec: "case pairwise_hash H (D - 1) \<lparr>Value = lv\<rparr> of
           Inl err \<Rightarrow>
             NewEmptyTree_loop H (int D) (int D - int D) (2 ^ (D - 1)) (2 ^ D - 1) lv nodes0
               = Inl (wrap_error ''compute hash: '' err)
         | Inr r \<Rightarrow>
             (\<exists>nodes'. NewEmptyTree_loop H (int D) (int D - int D) (2 ^ (D - 1)) (2 ^ D - 1) lv nodes0
                          = Inr nodes'
                \<and> length nodes' = length nodes0 \<and> nodes' ! 0 = r
                \<and> (\<forall>a::nat. 2 * int a + 2 < 2 ^ D - 1
                      \<longrightarrow> computeChildrenHash H (int a) nodes' = Inr (nodes' ! a)))"
    using assms(1) len0
    by (intro NewEmptyTree_loop_spec) auto
  show ?thesis
  proof (cases "pairwise_hash H (D - 1) \<lparr>Value = lv\<rparr>")
    case (Inl err)
    then show ?thesis using spec unfold by simp
  next
    case (Inr r)
    with spec obtain nodes' where
      run: "NewEmptyTree_loop H (int D) (int D - int D) (2 ^ (D - 1)) (2 ^ D - 1) lv nodes0 = Inr nodes'"
      and l: "length nodes' = length nodes0" and r: "nodes' ! 0 = r"
      and inv: "\<forall>a::nat. 2 * int a + 2 < 2 ^ D - 1
                      \<longrightarrow> computeChildrenHash H (int a) nodes' = Inr (nodes' ! a)"
      by auto
    have "tree_invariant H \<lparr>Nodes = nodes'\<rparr>"
      unfolding tree_invariant_def
    proof (intro allI impI)
      fix i assume "i < length (Nodes \<lparr>Nodes = nodes'\<rparr>)"
        and "2 * i + 2 < length (Nodes \<lparr>Nodes = nodes'\<rparr>)"
      then have "2 * int i + 2 < 2 ^ D - 1" using l len0 by simp
      then show "computeChildrenHash H (int i) (Nodes \<lparr>Nodes = nodes'\<rparr>)
                   = Inr (Nodes \<lparr>Nodes = nodes'\<rparr> ! i)"
        using inv by simp
    qed
    then show ?thesis
      using Inr unfold run l len0 r by simp
  qed
qed

lemma NewEmptyTree_Inr:
  assumes "NewEmptyTree H depth lv = Inr t"
  shows "\<exists>D. 1 \<le> D \<and> D \<le> 45 \<and> depth = int D \<and> int (length (Nodes t)) = 2 ^ D - 1
             \<and> tree_invariant H t
             \<and> pairwise_hash H (D - 1) \<lparr>Value = lv\<rparr> = Inr (Nodes t ! 0)"
proof -
  have d1: "1 \<le> depth"
    using assms by (auto simp: NewEmptyTree_def split: if_splits)
  define D where "D = nat depth"
  have dD: "depth = int D" and D1: "1 \<le> D" using d1 by (auto simp: D_def)
  have D45: "D \<le> 45"
  proof (rule ccontr)
    assume "\<not> D \<le> 45"
    then have "46 \<le> D" by simp
    from make_TreeNodes_refused [OF this] assms d1 show False
      by (simp add: NewEmptyTree_def dD)
  qed
  from NewEmptyTree_spec [OF D1 D45, of H lv] assms
  show ?thesis
    using D1 D45 dD by (auto split: sum.splits)
qed

text \<open>
  Claim C5, as the code has it. For a depth \<open>d \<ge> 1\<close> at which the allocation
  \<open>make([]TreeNode, 1<<d - 1)\<close> succeeds (the runtime refuses it from depth 46 on)
  and a leaf value \<open>v\<close> for which the \<open>d - 1\<close> level hashes \<open>H(v,v)\<close>,
  \<open>H(H(v,v),H(v,v))\<close>, ... succeed, \<open>NewEmptyTree(d, v)\<close> returns a tree with exactly
  \<open>2^d - 1\<close> nodes and \<open>2^(d-1)\<close> leaves whose root is the result of these \<open>d - 1\<close>
  hash applications (for \<open>d = 1\<close> the root is \<open>v\<close> itself). The leaf level is
  written without hashing, so the number of applications is \<open>d - 1\<close>, not \<open>d\<close>.
\<close>

theorem NewEmptyTree_shape_root:
  fixes D :: nat
  assumes "1 \<le> D"
    and "make_TreeNodes (wrap64 (shl 1 (int D) - 1)) = Inr nodes0"
    and "pairwise_hash H (D - 1) \<lparr>Value = Some v\<rparr> = Inr r"
  shows "D \<le> 45
         \<and> (\<exists>t. NewEmptyTree H (int D) (Some v) = Inr t
               \<and> int (length (Nodes t)) = 2 ^ D - 1
               \<and> GetLeavesAmount t = 2 ^ (D - 1)
               \<and> Root t = Inr r)"
proof -
  have D45: "D \<le> 45"
  proof (rule ccontr)
    assume "\<not> D \<le> 45"
    then have "46 \<le> D" by simp
    from make_TreeNodes_refused [OF this] assms(2) show False by simp
  qed
  from NewEmptyTree_spec [OF assms(1) D45, of H "Some v"] assms(3)
  obtain t where t: "NewEmptyTree H (int D) (Some v) = Inr t"
    and len: "int (length (Nodes t)) = 2 ^ D - 1" and root: "Nodes t ! 0 = r"
    by auto
  have "GetLeavesAmount t = 2 ^ (D - 1)"
    using GetLeavesAmount_shape [OF len] assms(1) D45 by simp
  moreover have "0 < length (Nodes t)"
    using odd_length_shape [OF len assms(1)] by (cases "Nodes t") auto
  then have "Root t = Inr r"
    using root by (simp add: Root_def index_ok)
  ultimately show ?thesis using t len D45 by blast
qed

theorem NewEmptyTree_shape_root_witness:
  "(1::nat) \<le> 3
   \<and> make_TreeNodes (wrap64 (shl 1 (int 3) - 1)) = Inr (replicate 7 \<lparr>Value = None\<rparr>)
   \<and> pairwise_hash demoHash (3 - 1) \<lparr>Value = Some 5\<rparr> = Inr \<lparr>Value = Some 415\<rparr>
   \<and> (3::nat) \<le> 45
   \<and> (\<exists>t. NewEmptyTree demoHash (int 3) (Some 5) = Inr t
           \<and> int (length (Nodes t)) = 2 ^ 3 - 1
           \<and> GetLeavesAmount t = 2 ^ (3 - 1)
           \<and> Root t = Inr \<lparr>Value = Some 415\<rparr>)"
proof -
  have m: "make_TreeNodes (wrap64 (shl 1 (int 3) - 1)) = Inr (replicate 7 \<lparr>Value = None\<rparr>)"
    by code_simp
  have h: "pairwise_hash demoHash (3 - 1) \<lparr>Value = Some 5\<rparr> = Inr \<lparr>Value = Some 415\<rparr>"
    by code_simp
  show ?thesis
    using m h NewEmptyTree_shape_root [OF _ m h] by simp
qed

text \<open>
  The claim as stated fails at depth 1, where the root is the leaf value and no hash
  is applied. It also fails at the depths where no tree is returned: at depth 46 the
  \<open>2^46 - 1\<close> nodes exceed the allocation limit, and at depth 64 \<open>1<<depth - 1\<close> is
  \<open>-1\<close> in 64-bit arithmetic; the allocation panics in both cases.
\<close>

theorem NewEmptyTree_root_d_hashes_counterexample:
  "NewEmptyTree demoHash 1 (Some 5) = Inr \<lparr>Nodes = [\<lparr>Value = Some 5\<rparr>]\<rparr>
   \<and> Root \<lparr>Nodes = [\<lparr>Value = Some 5\<rparr>]\<rparr> = Inr \<lparr>Value = Some 5\<rparr>
   \<and> pairwise_hash demoHash 1 \<lparr>Value = Some 5\<rparr> = Inr \<lparr>Value = Some 87\<rparr>
   \<and> Root \<lparr>Nodes = [\<lparr>Value = Some 5\<rparr>]\<rparr> \<noteq> pairwise_hash demoHash 1 \<lparr>Value = Some 5\<rparr>
   \<and> NewEmptyTree demoHash 46 (Some 5) = Inl (Panic ''makeslice: len out of range'')
   \<and> NewEmptyTree demoHash 64 (Some 5) = Inl (Panic ''makeslice: len out of range'')"
  by code_simp

subsection \<open>What a successful SetLeaf leaves behind\<close>

lemma SetLeaf_unfold:
  assumes "SetLeaf H t i val = (t', None)"
  shows "\<exists>nodes2 node.
           0 \<le> i \<and> i < GetLeavesAmount t
           \<and> 0 \<le> leaf_index t i \<and> leaf_index t i < int (length (Nodes t))
           \<and> SetLeaf_loop H (GetParentIndex (leaf_index t i))
                 ((Nodes t)[nat (leaf_index t i) := val]) = (nodes2, None)
           \<and> computeChildrenHash H 0 nodes2 = Inr node
           \<and> 0 < length nodes2
           \<and> t' = t\<lparr>Nodes := nodes2[0 := node]\<rparr>"
  using assms
  by (auto simp: SetLeaf_def Let_def leaf_index_def store_def
      split: if_splits sum.splits prod.splits option.splits failure.splits)

lemma SetLeaf_success:
  assumes len: "int (length (Nodes t)) = 2 ^ d - 1"
    and run: "SetLeaf H t i val = (t', None)"
  shows "0 \<le> i \<and> i < GetLeavesAmount t"
    and "2 \<le> d"
    and "length (Nodes t') = length (Nodes t)"
    and "0 < leaf_index t i \<and> Nodes t' ! nat (leaf_index t i) = val"
    and "\<forall>m. int m \<notin> set (path_below_root (leaf_index t i)) \<longrightarrow> m \<noteq> 0
             \<longrightarrow> Nodes t' ! m = Nodes t ! m"
    and "\<forall>a \<in> set (path_below_root (GetParentIndex (leaf_index t i))).
             computeChildrenHash H a (Nodes t') = Inr (Nodes t' ! nat a)"
    and "computeChildrenHash H 0 (Nodes t') = Inr (Nodes t' ! 0)"
proof -
  define j where "j = leaf_index t i"
  define nodes1 where "nodes1 = (Nodes t)[nat j := val]"
  from SetLeaf_unfold [OF run] obtain nodes2 node where
    i: "0 \<le> i" "i < GetLeavesAmount t"
    and jr: "0 \<le> j" "j < int (length (Nodes t))"
    and loop: "SetLeaf_loop H (GetParentIndex j) nodes1 = (nodes2, None)"
    and root: "computeChildrenHash H 0 nodes2 = Inr node"
    and t': "t' = t\<lparr>Nodes := nodes2[0 := node]\<rparr>"
    unfolding j_def nodes1_def by blast
  from SetLeaf_loop_spec [OF loop]
  have len2: "length nodes2 = length nodes1"
    and frame2: "\<forall>m. int m \<notin> set (path_below_root (GetParentIndex j)) \<longrightarrow> nodes2 ! m = nodes1 ! m"
    and loc2: "\<forall>a \<in> set (path_below_root (GetParentIndex j)).
                 computeChildrenHash H a nodes2 = Inr (nodes2 ! nat a)"
    by auto
  show valid: "0 \<le> i \<and> i < GetLeavesAmount t" using i by simp
  from valid_leaf_shape [OF len i] have d: "1 \<le> d" "d \<le> 62" by auto
  from computeChildrenHash_range [OF root] have l3: "2 < int (length nodes2)" by simp
  then have len3: "3 \<le> length (Nodes t)" using len2 by (simp add: nodes1_def)
  show d2: "2 \<le> d"
  proof (rule ccontr)
    assume "\<not> 2 \<le> d"
    then have "d = 1" using d by simp
    then show False using len len3 by simp
  qed
  note sh = leaf_index_shape [OF len i, folded j_def]
  obtain e where e: "d = Suc (Suc e)" using d2 by (cases d; cases "d - 1") auto
  have "(2::int) \<le> 2 ^ (d - 1)" by (simp add: e)
  then have jpos: "0 < j" using sh(2) by linarith
  have pjlt: "GetParentIndex j < j"
    using jpos by (simp add: GetParentIndex_pos)
  have pc: "path_below_root j = j # path_below_root (GetParentIndex j)"
    using path_cons [OF jpos] jpos by (simp add: GetParentIndex_pos)
  have above: "int m \<notin> set (path_below_root (GetParentIndex j))" if "j \<le> int m" for m
    using path_pos [of "int m" "GetParentIndex j"] that pjlt by auto
  show "length (Nodes t') = length (Nodes t)"
    using t' len2 by (simp add: nodes1_def)
  have "nodes2 ! nat j = nodes1 ! nat j"
    using frame2 above [of "nat j"] jpos by auto
  then show "0 < leaf_index t i \<and> Nodes t' ! nat (leaf_index t i) = val"
    using t' jpos jr by (simp add: nodes1_def j_def [symmetric])
  show "\<forall>m. int m \<notin> set (path_below_root (leaf_index t i)) \<longrightarrow> m \<noteq> 0
             \<longrightarrow> Nodes t' ! m = Nodes t ! m"
  proof (intro allI impI)
    fix m assume m: "int m \<notin> set (path_below_root (leaf_index t i))" "m \<noteq> 0"
    then have "int m \<noteq> j" "int m \<notin> set (path_below_root (GetParentIndex j))"
      by (auto simp: j_def [symmetric] pc)
    moreover from this jpos have "m \<noteq> nat j" by auto
    ultimately show "Nodes t' ! m = Nodes t ! m"
      using frame2 m(2) t' by (simp add: nodes1_def)
  qed
  have len23: "length (nodes2[0 := node]) = length nodes2" by simp
  show "\<forall>a \<in> set (path_below_root (GetParentIndex (leaf_index t i))).
             computeChildrenHash H a (Nodes t') = Inr (Nodes t' ! nat a)"
  proof
    fix a assume a: "a \<in> set (path_below_root (GetParentIndex (leaf_index t i)))"
    then have apos: "0 < a" using path_pos by blast
    have "computeChildrenHash H a (nodes2[0 := node]) = computeChildrenHash H a nodes2"
      using apos by (intro computeChildrenHash_cong) auto
    moreover have "nodes2[0 := node] ! nat a = nodes2 ! nat a"
      using apos by simp
    ultimately show "computeChildrenHash H a (Nodes t') = Inr (Nodes t' ! nat a)"
      using loc2 a t' by (simp add: j_def [symmetric])
  qed
  have "computeChildrenHash H 0 (nodes2[0 := node]) = computeChildrenHash H 0 nodes2"
    by (intro computeChildrenHash_cong) auto
  moreover have "0 < length nodes2" using l3 by (cases nodes2) auto
  ultimately show "computeChildrenHash H 0 (Nodes t') = Inr (Nodes t' ! 0)"
    using root t' by simp
qed

subsection \<open>The node invariant\<close>

lemma parent_of_children:
  "0 \<le> a \<Longrightarrow> GetParentIndex (a * 2 + 1) = a"
  "0 \<le> a \<Longrightarrow> GetParentIndex (a * 2 + 2) = a"
  by (simp_all add: GetParentIndex_pos)

lemma path_parent_closed:
  "c \<in> set (path_below_root j)
   \<Longrightarrow> GetParentIndex c \<in> set (path_below_root (GetParentIndex j)) \<or> GetParentIndex c = 0"
proof (induction j rule: path_below_root.induct)
  case (1 j)
  show ?case
  proof (cases "0 < j")
    case False
    with "1.prems" show ?thesis by (simp add: path_nil)
  next
    case True
    define pj where "pj = GetParentIndex j"
    have pc: "path_below_root j = j # path_below_root pj"
      using path_cons [OF True] True by (simp add: pj_def GetParentIndex_pos)
    have pj0: "0 \<le> pj" using True by (simp add: pj_def GetParentIndex_pos)
    show ?thesis
    proof (cases "c = j")
      case True
      show ?thesis
      proof (cases "0 < pj")
        case True
        then have "pj \<in> set (path_below_root pj)"
          by (simp add: path_cons)
        then show ?thesis using \<open>c = j\<close> by (simp add: pj_def)
      next
        case False
        then have "pj = 0" using pj0 by simp
        then show ?thesis using \<open>c = j\<close> by (simp add: pj_def)
      qed
    next
      case False
      then have cin: "c \<in> set (path_below_root pj)" using "1.prems" pc by simp
      then have "0 < pj" using path_pos [OF cin] by simp
      then have sub: "set (path_below_root (GetParentIndex pj)) \<subseteq> set (path_below_root pj)"
        using path_cons [of pj] by (auto simp: GetParentIndex_pos)
      from "1.IH" [OF True, folded pj_def, OF cin] sub
      show ?thesis by (auto simp: pj_def)
    qed
  qed
qed

lemma SetLeaf_preserves_invariant:
  assumes len: "int (length (Nodes t)) = 2 ^ d - 1"
    and run: "SetLeaf H t i val = (t', None)"
    and inv: "tree_invariant H t"
  shows "tree_invariant H t'"
  unfolding tree_invariant_def
proof (intro allI impI)
  fix a assume a: "a < length (Nodes t')" "2 * a + 2 < length (Nodes t')"
  note s = SetLeaf_success [OF len run]
  define j where "j = leaf_index t i"
  note sh = leaf_index_shape [OF len s(1) [THEN conjunct1] s(1) [THEN conjunct2], folded j_def]
  have jpos: "0 < j" using s(4) by (simp add: j_def)
  have pc: "path_below_root j = j # path_below_root (GetParentIndex j)"
    using path_cons [OF jpos] jpos by (simp add: GetParentIndex_pos)
  show "computeChildrenHash H (int a) (Nodes t') = Inr (Nodes t' ! a)"
  proof (cases "int a \<in> set (path_below_root (GetParentIndex j)) \<or> a = 0")
    case True
    then show ?thesis
      using s(6) s(7) by (auto simp: j_def [symmetric])
  next
    case False
    have leaf: "int (length (Nodes t)) \<le> 2 * j + 2"
    proof -
      obtain e where "d = Suc e" using s(2) by (cases d) auto
      then have "(2::int) ^ d = 2 * 2 ^ (d - 1)" by simp
      then show ?thesis using sh(2) len by linarith
    qed
    have aj: "int a \<noteq> j" using a s(3) leaf by linarith
    have out: "int m \<notin> set (path_below_root j)" if "int m = int a * 2 + 1 \<or> int m = int a * 2 + 2" for m
    proof
      assume "int m \<in> set (path_below_root j)"
      from path_parent_closed [OF this] that
      have "int a \<in> set (path_below_root (GetParentIndex j)) \<or> int a = 0"
        using parent_of_children [of "int a"] by auto
      then show False using False by simp
    qed
    have u0: "Nodes t' ! a = Nodes t ! a"
      using s(5) [rule_format, of a] False aj by (simp add: j_def [symmetric] pc)
    have u1: "Nodes t' ! nat (int a * 2 + 1) = Nodes t ! nat (int a * 2 + 1)"
      using s(5) [rule_format, of "nat (int a * 2 + 1)"] out [of "nat (int a * 2 + 1)"]
      by (simp add: j_def [symmetric])
    have u2: "Nodes t' ! nat (int a * 2 + 2) = Nodes t ! nat (int a * 2 + 2)"
      using s(5) [rule_format, of "nat (int a * 2 + 2)"] out [of "nat (int a * 2 + 2)"]
      by (simp add: j_def [symmetric])
    have "computeChildrenHash H (int a) (Nodes t') = computeChildrenHash H (int a) (Nodes t)"
      by (rule computeChildrenHash_cong [OF s(3) u1 u2])
    moreover have "computeChildrenHash H (int a) (Nodes t) = Inr (Nodes t ! a)"
      using inv a s(3) by (simp add: tree_invariant_def)
    ultimately show ?thesis using u0 by simp
  qed
qed

lemma reachable_shape_invariant:
  assumes "reachable H t"
  shows "tree_invariant H t \<and> (\<exists>d. int (length (Nodes t)) = 2 ^ d - 1)"
  using assms
proof (induction rule: reachable.induct)
  case (reachable_new depth leafValue t)
  from NewEmptyTree_Inr [OF this] show ?case by blast
next
  case (reachable_set t i val t')
  then obtain d where d: "int (length (Nodes t)) = 2 ^ d - 1" by blast
  have "tree_invariant H t'"
    using SetLeaf_preserves_invariant [OF d reachable_set.hyps(2)] reachable_set.IH by blast
  moreover have "length (Nodes t') = length (Nodes t)"
    by (rule SetLeaf_success(3) [OF d reachable_set.hyps(2)])
  ultimately show ?case using d by auto
qed

text \<open>
  Claim C6. Every tree returned by \<open>NewEmptyTree\<close>, and every tree that a sequence of
  successful \<open>SetLeaf\<close> calls makes of it, satisfies the invariant: each internal node
  \<open>i\<close> (one whose children \<open>2i+1\<close> and \<open>2i+2\<close> are in the array) holds the hash of
  its two children.
\<close>

theorem reachable_tree_invariant:
  assumes "reachable H t"
  shows "tree_invariant H t"
  using reachable_shape_invariant [OF assms] by blast

theorem reachable_tree_invariant_witness:
  "reachable demoHash \<lparr>Nodes = [\<lparr>Value = Some 99\<rparr>, \<lparr>Value = Some 9\<rparr>, \<lparr>Value = Some 5\<rparr>]\<rparr>
   \<and> tree_invariant demoHash \<lparr>Nodes = [\<lparr>Value = Some 99\<rparr>, \<lparr>Value = Some 9\<rparr>, \<lparr>Value = Some 5\<rparr>]\<rparr>"
proof -
  have a: "NewEmptyTree demoHash 2 (Some 5)
             = Inr \<lparr>Nodes = [\<lparr>Value = Some 87\<rparr>, \<lparr>Value = Some 5\<rparr>, \<lparr>Value = Some 5\<rparr>]\<rparr>"
    by code_simp
  have b: "SetLeaf demoHash \<lparr>Nodes = [\<lparr>Value = Some 87\<rparr>, \<lparr>Value = Some 5\<rparr>, \<lparr>Value = Some 5\<rparr>]\<rparr>
             0 \<lparr>Value = Some 9\<rparr>
           = (\<lparr>Nodes = [\<lparr>Value = Some 99\<rparr>, \<lparr>Value = Some 9\<rparr>, \<lparr>Value = Some 5\<rparr>]\<rparr>, None)"
    by code_simp
  have r: "reachable demoHash \<lparr>Nodes = [\<lparr>Value = Some 99\<rparr>, \<lparr>Value = Some 9\<rparr>, \<lparr>Value = Some 5\<rparr>]\<rparr>"
    by (rule reachable_set [OF reachable_new [OF a] b])
  show ?thesis
    using r reachable_tree_invariant [OF r] by simp
qed

subsection \<open>A proof recomputes the root\<close>

lemma root_from_proof_path:
  assumes "\<forall>a \<in> set (path_below_root (GetParentIndex j)) \<union> {0}.
             computeChildrenHash H a nodes = Inr (nodes ! nat a)"
    and "0 \<le> j"
    and "length sibs = length (path_below_root j)"
    and "\<forall>k < length sibs. sibs ! k = nodes ! nat (GetSiblingIndex (path_below_root j ! k))"
    and "\<forall>k < length sibs. bit idx (l + k) \<longleftrightarrow> odd (path_below_root j ! k)"
  shows "root_from_proof H (nodes ! nat j) sibs idx l = Inr (nodes ! 0)"
  using assms
proof (induction j arbitrary: sibs l rule: path_below_root.induct)
  case (1 j)
  show ?case
  proof (cases "0 < j")
    case False
    then have "j = 0" using "1.prems"(2) by simp
    then show ?thesis using "1.prems"(3) by (simp add: path_nil)
  next
    case True
    define pj where "pj = GetParentIndex j"
    have pjv: "pj = (j - 1) div 2" using True by (simp add: pj_def GetParentIndex_pos)
    have pc: "path_below_root j = j # path_below_root pj"
      using path_cons [OF True] by (simp add: pjv)
    have pj0: "0 \<le> pj" using True by (simp add: pjv)
    obtain s rest where sibs: "sibs = s # rest"
      using "1.prems"(3) pc by (cases sibs) auto
    have s: "s = nodes ! nat (GetSiblingIndex j)"
      using "1.prems"(4) [rule_format, of 0] by (simp add: sibs pc)
    have b: "bit idx l \<longleftrightarrow> odd j"
      using "1.prems"(5) [rule_format, of 0] by (simp add: sibs pc)
    have "pj \<in> set (path_below_root pj) \<union> {0}"
      using pj0 path_cons [of pj] by (cases "0 < pj") auto
    then have hp: "computeChildrenHash H pj nodes = Inr (nodes ! nat pj)"
      using "1.prems"(1) [unfolded pj_def [symmetric]] by blast
    from computeChildrenHash_range [OF hp]
    have "computeChildrenHash H pj nodes
            = computeNodeHash H (nodes ! nat (pj * 2 + 1)) (nodes ! nat (pj * 2 + 2))"
      using pj0 by (intro computeChildrenHash_eval) auto
    with hp have hn: "computeNodeHash H (nodes ! nat (pj * 2 + 1)) (nodes ! nat (pj * 2 + 2))
                        = Inr (nodes ! nat pj)"
      by simp
    have step: "(if bit idx l then computeNodeHash H (nodes ! nat j) s
                 else computeNodeHash H s (nodes ! nat j)) = Inr (nodes ! nat pj)"
    proof (cases "even j")
      case True
      then have e1: "pj * 2 + 2 = j"
        using \<open>0 < j\<close> unfolding pjv by presburger
      then have "GetSiblingIndex j = pj * 2 + 1"
        using True \<open>0 < j\<close> by (simp add: GetSiblingIndex_pos)
      then show ?thesis using hn b True s e1 by simp
    next
      case False
      then have e1: "pj * 2 + 1 = j"
        using \<open>0 < j\<close> unfolding pjv by presburger
      then have "GetSiblingIndex j = pj * 2 + 2"
        using False \<open>0 < j\<close> by (simp add: GetSiblingIndex_pos)
      then show ?thesis using hn b False s e1 by simp
    qed
    have sub: "set (path_below_root (GetParentIndex pj)) \<union> {0} \<subseteq> set (path_below_root pj) \<union> {0}"
    proof (cases "0 < pj")
      case True
      then show ?thesis using path_cons [of pj] by (auto simp: GetParentIndex_pos)
    next
      case False
      then have "pj = 0" using pj0 by simp
      then show ?thesis by (simp add: GetParentIndex_0 path_nil)
    qed
    have "root_from_proof H (nodes ! nat pj) rest idx (Suc l) = Inr (nodes ! 0)"
    proof (rule "1.IH" [OF True, folded pj_def])
      show "\<forall>a \<in> set (path_below_root (GetParentIndex pj)) \<union> {0}.
              computeChildrenHash H a nodes = Inr (nodes ! nat a)"
        using "1.prems"(1) sub by (auto simp: pj_def)
      show "0 \<le> pj" by (rule pj0)
      show "length rest = length (path_below_root pj)"
        using "1.prems"(3) by (simp add: sibs pc)
      show "\<forall>k < length rest. rest ! k = nodes ! nat (GetSiblingIndex (path_below_root pj ! k))"
        using "1.prems"(4) by (auto simp: sibs pc)
      show "\<forall>k < length rest. bit idx (Suc l + k) \<longleftrightarrow> odd (path_below_root pj ! k)"
      proof (intro allI impI)
        fix k assume "k < length rest"
        then have "Suc k < length sibs" by (simp add: sibs)
        from "1.prems"(5) [rule_format, OF this]
        show "bit idx (Suc l + k) \<longleftrightarrow> odd (path_below_root pj ! k)"
          by (simp add: pc)
      qed
    qed
    then show ?thesis
      using step by (simp add: sibs)
  qed
qed

lemma SetLeaf_same_indexing:
  assumes "length (Nodes t') = length (Nodes t)"
  shows "GetLeavesAmount t' = GetLeavesAmount t" and "leaf_index t' i = leaf_index t i"
  using assms by (simp_all add: GetLeavesAmount_def leaf_index_def)

text \<open>
  Claim C2, as the code has it. For a tree of depth \<open>d \<ge> 1\<close>, after \<open>SetLeaf(i, x)\<close>
  succeeds, \<open>GetProof(i)\<close> succeeds, and combining \<open>x\<close> with the first \<open>d - 1\<close> path
  entries level by level, computing \<open>Hash(current, sibling)\<close> at level \<open>k\<close> when bit
  \<open>k\<close> of \<open>Indices\<close> is 1 and \<open>Hash(sibling, current)\<close> when it is 0, yields the
  tree's \<open>Root()\<close>.
\<close>

theorem SetLeaf_proof_reconstructs_root:
  assumes "1 \<le> d" and "int (length (Nodes t)) = 2 ^ d - 1"
    and "SetLeaf H t i x = (t', None)"
  shows "\<exists>p r. GetProof t' i = Inr p
           \<and> root_from_proof H x (take (d - 1) (Path p)) (Indices p) 0 = Inr r
           \<and> Root t' = Inr r"
proof -
  note s = SetLeaf_success [OF assms(2,3)]
  note same = SetLeaf_same_indexing [OF s(3)]
  have len': "int (length (Nodes t')) = 2 ^ d - 1" using assms(2) s(3) by simp
  have i': "0 \<le> i" "i < GetLeavesAmount t'" using s(1) same(1) by auto
  define j where "j = leaf_index t i"
  note sh = leaf_index_shape [OF assms(2) s(1) [THEN conjunct1] s(1) [THEN conjunct2], folded j_def]
  from GetProof_spec [OF len' i'] obtain p where
    p: "GetProof t' i = Inr p" and plen: "length (Path p) = d"
    and psib: "\<forall>k < d - 1. Path p ! k = Nodes t' ! nat (GetSiblingIndex (path_below_root j ! k))"
    and pbits: "\<forall>b. bit (Indices p) b \<longleftrightarrow> b < d - 1 \<and> odd (path_below_root j ! b)"
    unfolding same(2) j_def by blast
  have "root_from_proof H (Nodes t' ! nat j) (take (d - 1) (Path p)) (Indices p) 0
          = Inr (Nodes t' ! 0)"
  proof (rule root_from_proof_path)
    show "\<forall>a \<in> set (path_below_root (GetParentIndex j)) \<union> {0}.
            computeChildrenHash H a (Nodes t') = Inr (Nodes t' ! nat a)"
      using s(6) s(7) by (auto simp: j_def)
    show "0 \<le> j" by (rule sh(5))
    show "length (take (d - 1) (Path p)) = length (path_below_root j)"
      using plen sh(6) by simp
    show "\<forall>k < length (take (d - 1) (Path p)).
            take (d - 1) (Path p) ! k = Nodes t' ! nat (GetSiblingIndex (path_below_root j ! k))"
      using psib plen by simp
    show "\<forall>k < length (take (d - 1) (Path p)).
            bit (Indices p) (0 + k) \<longleftrightarrow> odd (path_below_root j ! k)"
      using pbits plen by simp
  qed
  moreover have "Nodes t' ! nat j = x" using s(4) by (simp add: j_def)
  moreover have "0 < length (Nodes t')"
    using odd_length_shape [OF len' assms(1)] by (cases "Nodes t'") auto
  then have "Root t' = Inr (Nodes t' ! 0)" by (simp add: Root_def index_ok)
  ultimately show ?thesis using p by simp
qed


theorem SetLeaf_proof_reconstructs_root_witness:
  "(1::nat) \<le> 3 \<and> int (length (Nodes example_tree7)) = 2 ^ 3 - 1
   \<and> SetLeaf demoHash example_tree7 2 \<lparr>Value = Some 9\<rparr>
       = (\<lparr>Nodes = [\<lparr>Value = Some 427\<rparr>, \<lparr>Value = Some 87\<rparr>, \<lparr>Value = Some 99\<rparr>,
                    \<lparr>Value = Some 5\<rparr>, \<lparr>Value = Some 5\<rparr>, \<lparr>Value = Some 9\<rparr>, \<lparr>Value = Some 5\<rparr>]\<rparr>, None)
   \<and> (\<exists>p r. GetProof \<lparr>Nodes = [\<lparr>Value = Some 427\<rparr>, \<lparr>Value = Some 87\<rparr>, \<lparr>Value = Some 99\<rparr>,
                    \<lparr>Value = Some 5\<rparr>, \<lparr>Value = Some 5\<rparr>, \<lparr>Value = Some 9\<rparr>, \<lparr>Value = Some 5\<rparr>]\<rparr> 2 = Inr p
           \<and> root_from_proof demoHash \<lparr>Value = Some 9\<rparr> (take (3 - 1) (Path p)) (Indices p) 0 = Inr r
           \<and> Root \<lparr>Nodes = [\<lparr>Value = Some 427\<rparr>, \<lparr>Value = Some 87\<rparr>, \<lparr>Value = Some 99\<rparr>,
                    \<lparr>Value = Some 5\<rparr>, \<lparr>Value = Some 5\<rparr>, \<lparr>Value = Some 9\<rparr>, \<lparr>Value = Some 5\<rparr>]\<rparr> = Inr r)"
proof -
  have h2: "int (length (Nodes example_tree7)) = 2 ^ 3 - 1"
    by (simp add: example_tree7_def)
  have h3: "SetLeaf demoHash example_tree7 2 \<lparr>Value = Some 9\<rparr>
       = (\<lparr>Nodes = [\<lparr>Value = Some 427\<rparr>, \<lparr>Value = Some 87\<rparr>, \<lparr>Value = Some 99\<rparr>,
                    \<lparr>Value = Some 5\<rparr>, \<lparr>Value = Some 5\<rparr>, \<lparr>Value = Some 9\<rparr>, \<lparr>Value = Some 5\<rparr>]\<rparr>, None)"
    by code_simp
  show ?thesis
    using h2 h3 SetLeaf_proof_reconstructs_root [OF _ h2 h3] by simp
qed

text \<open>
  The claim as stated puts the sibling on the left when the bit is 1. On the depth-2
  tree with leaf 0 set to 9 and leaf 1 equal to 5, the proof of leaf 0 has bit 0 set
  and sibling 5; the documented order computes \<open>Hash(5, 9)\<close>, the root is
  \<open>Hash(9, 5)\<close>.
\<close>

theorem SetLeaf_proof_documented_order_counterexample:
  "SetLeaf demoHash \<lparr>Nodes = [\<lparr>Value = Some 87\<rparr>, \<lparr>Value = Some 5\<rparr>, \<lparr>Value = Some 5\<rparr>]\<rparr>
       0 \<lparr>Value = Some 9\<rparr> = (example_tree3_set, None)
   \<and> GetProof example_tree3_set 0
       = Inr \<lparr>Path = [\<lparr>Value = Some 5\<rparr>, \<lparr>Value = Some 99\<rparr>], Indices = 1\<rparr>
   \<and> root_from_proof_documented demoHash \<lparr>Value = Some 9\<rparr>
         (take (2 - 1) [\<lparr>Value = Some 5\<rparr>, \<lparr>Value = Some 99\<rparr>]) 1 0 = Inr \<lparr>Value = Some 91\<rparr>
   \<and> Root example_tree3_set = Inr \<lparr>Value = Some 99\<rparr>
   \<and> root_from_proof_documented demoHash \<lparr>Value = Some 9\<rparr>
         (take (2 - 1) [\<lparr>Value = Some 5\<rparr>, \<lparr>Value = Some 99\<rparr>]) 1 0 \<noteq> Root example_tree3_set"
  by code_simp

subsection \<open>What SetLeaf leaves unchanged in other proofs\<close>









subsection \<open>Bounds of the ancestor walk\<close>

lemma computeNodeHash_total:
  assumes "total_hash H" "Value l \<noteq> None" "Value r \<noteq> None"
  shows "\<exists>n. computeNodeHash H l r = Inr n \<and> Value n \<noteq> None"
proof -
  obtain a b where ab: "Value l = Some a" "Value r = Some b" using assms(2,3) by auto
  obtain v where "H [uint a, uint b] = Inr v" "\<bar>v\<bar> < 2 ^ 256"
    using assms(1) unfolding total_hash_def by blast
  then show ?thesis by (simp add: computeNodeHash_def ab)
qed

lemma computeChildrenHash_total:
  assumes "total_hash H" "non_nil nodes" "0 \<le> a" "a * 2 + 2 < int (length nodes)"
  shows "\<exists>n. computeChildrenHash H a nodes = Inr n \<and> Value n \<noteq> None"
proof -
  have "nodes ! nat (a * 2 + 1) \<in> set nodes" "nodes ! nat (a * 2 + 2) \<in> set nodes"
    using assms(3,4) by (auto intro!: nth_mem)
  then have "Value (nodes ! nat (a * 2 + 1)) \<noteq> None" "Value (nodes ! nat (a * 2 + 2)) \<noteq> None"
    using assms(2) by (auto simp: non_nil_def)
  from computeNodeHash_total [OF assms(1) this]
  show ?thesis by (simp add: computeChildrenHash_eval [OF assms(3,4)])
qed

lemma non_nil_update:
  assumes "non_nil nodes" "Value n \<noteq> None"
  shows "non_nil (nodes[k := n])"
  using assms unfolding non_nil_def by (auto dest!: set_update_subset_insert [THEN subsetD])

lemma SetLeaf_loop_total:
  assumes "total_hash H" "non_nil nodes" "0 \<le> j" "j * 2 + 2 < int (length nodes)"
  shows "\<exists>nodes'. SetLeaf_loop H j nodes = (nodes', None)
           \<and> non_nil nodes' \<and> length nodes' = length nodes"
  using assms
proof (induction j arbitrary: nodes rule: path_below_root.induct)
  case (1 j)
  show ?case
  proof (cases "0 < j")
    case False
    then show ?thesis using "1.prems"(2) by (subst SetLeaf_loop.simps) simp
  next
    case True
    obtain n where n: "computeChildrenHash H j nodes = Inr n" "Value n \<noteq> None"
      using computeChildrenHash_total [OF "1.prems"] by blast
    have jr: "j < int (length nodes)" using "1.prems"(4) True by linarith
    have step: "SetLeaf_loop H j nodes = SetLeaf_loop H (GetParentIndex j) (nodes[nat j := n])"
      using True n jr by (subst SetLeaf_loop.simps) (simp add: store_ok)
    have "0 \<le> GetParentIndex j" "GetParentIndex j * 2 + 2 < int (length (nodes[nat j := n]))"
      using True "1.prems"(4) by (auto simp: GetParentIndex_pos)
    from "1.IH" [OF True "1.prems"(1) non_nil_update [OF "1.prems"(2) n(2)] this]
    show ?thesis unfolding step by simp
  qed
qed

text \<open>
  From depth 2 on the walk stays inside the array: with a hash that does not fail and
  no nil values, \<open>SetLeaf\<close> at a valid index returns without error.
\<close>

lemma SetLeaf_succeeds_from_depth_two:
  assumes "2 \<le> d" and len: "int (length (Nodes t)) = 2 ^ d - 1"
    and i: "0 \<le> i" "i < GetLeavesAmount t"
    and H: "total_hash H" and nn: "non_nil (Nodes t)" and x: "Value x \<noteq> None"
  shows "\<exists>t'. SetLeaf H t i x = (t', None)"
proof -
  define j where "j = leaf_index t i"
  note sh = leaf_index_shape [OF len i, folded j_def]
  obtain e where e: "d = Suc (Suc e)" using assms(1) by (cases d; cases "d - 1") auto
  have "(2::int) \<le> 2 ^ (d - 1)" by (simp add: e)
  then have jpos: "0 < j" using sh(2) by linarith
  define nodes1 where "nodes1 = (Nodes t)[nat j := x]"
  have nn1: "non_nil nodes1" unfolding nodes1_def by (rule non_nil_update [OF nn x])
  have odd: "odd (int (length (Nodes t)))"
    using len by (simp add: e)
  have pr: "GetParentIndex j * 2 + 2 < int (length nodes1)"
  proof (cases "even j")
    case True
    then have "(j - 1) div 2 * 2 + 2 = j" using jpos by presburger
    then show ?thesis using sh(4) jpos by (simp add: GetParentIndex_pos nodes1_def)
  next
    case False
    then have a: "(j - 1) div 2 * 2 + 2 = j + 1" by presburger
    have "even (j + 1)" using False by simp
    then have "j + 1 \<noteq> int (length (Nodes t))" using odd by metis
    then show ?thesis using sh(4) jpos a by (simp add: GetParentIndex_pos nodes1_def)
  qed
  have p0: "0 \<le> GetParentIndex j" using jpos by (simp add: GetParentIndex_pos)
  obtain nodes2 where l2: "SetLeaf_loop H (GetParentIndex j) nodes1 = (nodes2, None)"
    and nn2: "non_nil nodes2" and len2: "length nodes2 = length nodes1"
    using SetLeaf_loop_total [OF H nn1 p0 pr] by blast
  have "(4::int) \<le> 2 ^ d" by (simp add: e)
  then have "(0::int) * 2 + 2 < int (length nodes2)"
    using len len2 by (simp add: nodes1_def)
  from computeChildrenHash_total [OF H nn2 _ this]
  obtain n where n: "computeChildrenHash H 0 nodes2 = Inr n" by auto
  have "length nodes2 = length (Nodes t)" using len2 by (simp add: nodes1_def)
  moreover have "0 < int (length (Nodes t))" using sh(4) jpos by linarith
  ultimately have "0 < length nodes2" by simp
  then show ?thesis
    using i sh(4,5) l2 n
    by (simp add: SetLeaf_def Let_def leaf_index_def [symmetric] j_def [symmetric]
        store_ok nodes1_def [symmetric])
qed

text \<open>
  Claim C3 says that for every depth \<open>d \<ge> 1\<close> \<open>SetLeaf\<close> at a valid index stays
  inside the array and returns without error. At depth 1 it does not:
  \<open>NewEmptyTree(1, v)\<close> returns the one-node tree, whose only valid leaf index is 0,
  and \<open>SetLeaf(0, x)\<close> on it writes the leaf and then recomputes the root from
  \<open>Nodes[1]\<close> and \<open>Nodes[2]\<close>, which do not exist. The read is out of range and
  the call panics, for every hash, leaf value and \<open>x\<close>.
\<close>

theorem SetLeaf_depth_one_out_of_range:
  "NewEmptyTree H 1 (Some v) = Inr \<lparr>Nodes = [\<lparr>Value = Some v\<rparr>]\<rparr>
   \<and> GetLeavesAmount \<lparr>Nodes = [\<lparr>Value = Some v\<rparr>]\<rparr> = 1
   \<and> SetLeaf H \<lparr>Nodes = [\<lparr>Value = Some v\<rparr>]\<rparr> 0 x
       = (\<lparr>Nodes = [x]\<rparr>, Some (Panic ''index out of range''))"
proof -
  have a: "NewEmptyTree H 1 (Some v) = Inr \<lparr>Nodes = [\<lparr>Value = Some v\<rparr>]\<rparr>"
    using NewEmptyTree_spec [of 1 H "Some v"]
    by (auto simp: length_Suc_conv)
  have b: "GetLeavesAmount \<lparr>Nodes = [\<lparr>Value = Some v\<rparr>]\<rparr> = 1"
    by (simp add: GetLeavesAmount_def wrap64_def go_div_def)
  have c: "SetLeaf_loop H 0 [x] = ([x], None)"
    by (subst SetLeaf_loop.simps) simp
  have "SetLeaf H \<lparr>Nodes = [\<lparr>Value = Some v\<rparr>]\<rparr> 0 x
       = (\<lparr>Nodes = [x]\<rparr>, Some (Panic ''index out of range''))"
    by (simp add: SetLeaf_def Let_def b store_def GetParentIndex_0 c
        computeChildrenHash_def getChildrenOf_def index_def)
  then show ?thesis using a b by simp
qed

section \<open>Properties of package zkcertificate\<close>

subsection \<open>Certificate construction\<close>

text \<open>
  Claim C7. When the content's \<open>Hash()\<close> succeeds and \<open>VerifySignature\<close> reports that
  the provider signature does not verify over \<open>(contentHash, holderCommitment)\<close>,
  \<open>New\<close> returns the error \<open>invalid signature\<close> and no certificate; and whenever
  \<open>New\<close> returns a certificate, the content hash succeeded and the signature
  verified.
\<close>

theorem New_invalid_signature:
  "(content_Hash methods content = Inr contentHash
      \<and> VerifySignature poseidon VerifyPoseidon pk contentHash holderCommitment sig = Inr False
    \<longrightarrow> New poseidon VerifyPoseidon methods holderCommitment content pk sig salt expiration
          = Inl (Error ''invalid signature''))
   \<and> (New poseidon VerifyPoseidon methods holderCommitment content pk sig salt expiration = Inr cert
    \<longrightarrow> (\<exists>ch. content_Hash methods content = Inr ch
           \<and> VerifySignature poseidon VerifyPoseidon pk ch holderCommitment sig = Inr True))"
  by (auto simp: New_def Let_def split: sum.splits if_splits)

theorem New_invalid_signature_witness:
  "(content_Hash demoContent 11 = Inr (HashFromBigInt 11)
      \<and> VerifySignature demoHash demoVerify demoKey (HashFromBigInt 11) (HashFromBigInt 22)
            badSignature = Inr False
      \<and> New demoHash demoVerify demoContent (HashFromBigInt 22) 11 demoKey badSignature 7
            \<lparr>Unix = 1700000000\<rparr> = Inl (Error ''invalid signature''))
   \<and> (New demoHash demoVerify demoContent (HashFromBigInt 22) 11 demoKey goodSignature 7
            \<lparr>Unix = 1700000000\<rparr>
        = Inr \<lparr>certHolderCommitment = HashFromBigInt 22,
               certLeafHash = HashFromBigInt 105, certDID = ''did:gip1:105'',
               certStandard = ''gip1'', certContent = 11,
               certContentHash = HashFromBigInt 11,
               certExpirationDate = \<lparr>Unix = 1700000000\<rparr>,
               certProvider = \<lparr>PublicKey = demoKey, Signature = goodSignature\<rparr>,
               certRandomSalt = 7\<rparr>
      \<and> (\<exists>ch. content_Hash demoContent 11 = Inr ch
             \<and> VerifySignature demoHash demoVerify demoKey ch (HashFromBigInt 22) goodSignature
                 = Inr True))"
proof -
  have a: "content_Hash demoContent (11::int) = Inr (HashFromBigInt 11)"
    by (simp add: demoContent_def)
  have b: "VerifySignature demoHash demoVerify demoKey (HashFromBigInt 11) (HashFromBigInt 22)
            badSignature = Inr False"
    by code_simp
  have c: "New demoHash demoVerify demoContent (HashFromBigInt 22) 11 demoKey goodSignature 7
            \<lparr>Unix = 1700000000\<rparr>
        = Inr \<lparr>certHolderCommitment = HashFromBigInt 22,
               certLeafHash = HashFromBigInt 105, certDID = ''did:gip1:105'',
               certStandard = ''gip1'', certContent = 11,
               certContentHash = HashFromBigInt 11,
               certExpirationDate = \<lparr>Unix = 1700000000\<rparr>,
               certProvider = \<lparr>PublicKey = demoKey, Signature = goodSignature\<rparr>,
               certRandomSalt = 7\<rparr>"
    by code_simp
  from a b
    New_invalid_signature [of demoContent 11 "HashFromBigInt 11" demoHash demoVerify demoKey
      "HashFromBigInt 22" badSignature 7 "\<lparr>Unix = 1700000000\<rparr>", THEN conjunct1]
  have d: "New demoHash demoVerify demoContent (HashFromBigInt 22) 11 demoKey badSignature 7
            \<lparr>Unix = 1700000000\<rparr> = Inl (Error ''invalid signature'')"
    by blast
  from c
    New_invalid_signature [of demoContent 11 _ demoHash demoVerify demoKey
      "HashFromBigInt 22" goodSignature 7 "\<lparr>Unix = 1700000000\<rparr>", THEN conjunct2]
  have e: "\<exists>ch. content_Hash demoContent 11 = Inr ch
             \<and> VerifySignature demoHash demoVerify demoKey ch (HashFromBigInt 22) goodSignature
                 = Inr True"
    by blast
  show ?thesis using a b c d e by blast
qed

text \<open>
  Claim C8. Every certificate that \<open>New\<close> returns has as its leaf hash the hash of
  exactly the nine elements content hash, public key X, public key Y, signature S,
  signature R8.X, signature R8.Y, holder commitment, salt and expiration in Unix
  seconds, in this order; and its DID is \<open>did:\<close>, the standard, \<open>:\<close> and the
  decimal string of the leaf hash.
\<close>

theorem New_leaf_hash_and_did:
  assumes "New poseidon VerifyPoseidon methods holderCommitment content pk sig salt expiration
             = Inr cert"
  shows "\<exists>contentHash h.
           content_Hash methods content = Inr contentHash
           \<and> poseidon [BigInt contentHash, X pk, Y pk, S sig, X (R8 sig), Y (R8 sig),
                       BigInt holderCommitment, sint salt, Unix expiration] = Inr h
           \<and> certLeafHash cert = HashFromBigInt h
           \<and> certDID cert
               = ''did:'' @ content_Standard methods content @ '':'' @ decimal (BigInt (certLeafHash cert))"
  using assms
  by (auto simp: New_def LeafHash_def DID_def Hash_String_def Standard_String_def Let_def
      split: sum.splits if_splits)

theorem New_leaf_hash_and_did_witness:
  "New demoHash demoVerify demoContent (HashFromBigInt 22) 11 demoKey goodSignature 7
            \<lparr>Unix = 1700000000\<rparr>
        = Inr \<lparr>certHolderCommitment = HashFromBigInt 22,
               certLeafHash = HashFromBigInt 105, certDID = ''did:gip1:105'',
               certStandard = ''gip1'', certContent = 11,
               certContentHash = HashFromBigInt 11,
               certExpirationDate = \<lparr>Unix = 1700000000\<rparr>,
               certProvider = \<lparr>PublicKey = demoKey, Signature = goodSignature\<rparr>,
               certRandomSalt = 7\<rparr>
   \<and> (\<exists>contentHash h.
           content_Hash demoContent 11 = Inr contentHash
           \<and> demoHash [BigInt contentHash, X demoKey, Y demoKey, S goodSignature,
                       X (R8 goodSignature), Y (R8 goodSignature),
                       BigInt (HashFromBigInt 22), sint (7 :: int64), Unix \<lparr>Unix = 1700000000\<rparr>] = Inr h
           \<and> HashFromBigInt 105 = HashFromBigInt h
           \<and> ''did:gip1:105''
               = ''did:'' @ content_Standard demoContent (11::int) @ '':'' @ decimal (BigInt (HashFromBigInt 105)))"
proof -
  have c: "New demoHash demoVerify demoContent (HashFromBigInt 22) 11 demoKey goodSignature 7
            \<lparr>Unix = 1700000000\<rparr>
        = Inr \<lparr>certHolderCommitment = HashFromBigInt 22,
               certLeafHash = HashFromBigInt 105, certDID = ''did:gip1:105'',
               certStandard = ''gip1'', certContent = 11,
               certContentHash = HashFromBigInt 11,
               certExpirationDate = \<lparr>Unix = 1700000000\<rparr>,
               certProvider = \<lparr>PublicKey = demoKey, Signature = goodSignature\<rparr>,
               certRandomSalt = 7\<rparr>"
    by code_simp
  show ?thesis
    using c New_leaf_hash_and_did [OF c] by simp
qed


subsection \<open>Text and JSON decoding\<close>

lemma parse_digits_None: "\<not> is_decimal ds \<Longrightarrow> parse_digits ds = None"
  by (simp add: parse_digits_def is_decimal_def)

lemma parse_digits_Some: "is_decimal ds \<Longrightarrow> parse_digits ds = Some (digits_value ds)"
  by (simp add: parse_digits_def is_decimal_def)

lemma is_decimal_no_sign:
  assumes "is_decimal (c # cs)"
  shows "c \<noteq> CHR ''-''" and "c \<noteq> CHR ''+''"
  using assms by (auto simp: is_decimal_def is_digit_def)

lemma SetString10_None:
  assumes "\<not> is_decimal (strip_sign str)"
  shows "SetString10 str = None"
proof (cases str)
  case Nil
  then show ?thesis by (simp add: SetString10_def)
next
  case (Cons c cs)
  then show ?thesis
    using assms parse_digits_None [of cs] parse_digits_None [of str]
    by (auto simp: SetString10_def strip_sign_def)
qed

lemma SetString10_Some:
  assumes "is_decimal (strip_sign str)"
  shows "\<exists>v. SetString10 str = Some v"
proof (cases str)
  case Nil
  then show ?thesis using assms by (simp add: strip_sign_def is_decimal_def)
next
  case (Cons c cs)
  then show ?thesis
    using assms parse_digits_Some [of cs] parse_digits_Some [of str]
    by (auto simp: SetString10_def strip_sign_def)
qed

lemma FromDecimal_rejects:
  assumes "\<not> is_decimal (strip_sign str) \<or> is_negative str"
  shows "\<exists>err. FromDecimal str = Inl err"
proof (cases str)
  case Nil
  then show ?thesis by (simp add: FromDecimal_def)
next
  case (Cons c cs)
  show ?thesis
  proof (cases "c = CHR ''-''")
    case True
    have "\<not> is_decimal str" using True Cons is_decimal_no_sign(1) by blast
    then show ?thesis
      using True Cons parse_digits_None [of str]
      by (simp add: FromDecimal_def Let_def)
  next
    case False
    then have nd: "\<not> is_decimal (strip_sign str)"
      using assms Cons by (simp add: is_negative_def)
    show ?thesis
    proof (cases "c = CHR ''+''")
      case True
      then have "parse_digits cs = None"
        using nd Cons parse_digits_None [of cs] by (simp add: strip_sign_def)
      then show ?thesis using True Cons by (simp add: FromDecimal_def Let_def)
    next
      case plus: False
      then have "parse_digits str = None"
        using nd Cons False parse_digits_None [of str] by (simp add: strip_sign_def)
      then show ?thesis using plus Cons by (simp add: FromDecimal_def Let_def)
    qed
  qed
qed

lemma FromDecimal_accepts:
  assumes "is_decimal str" "digits_value str < 2 ^ 256"
  shows "FromDecimal str = Inr (of_nat (digits_value str))"
proof (cases str)
  case Nil
  then show ?thesis using assms by (simp add: is_decimal_def)
next
  case (Cons c cs)
  then have "c \<noteq> CHR ''+''" using assms(1) is_decimal_no_sign(2) by blast
  then show ?thesis
    using Cons assms parse_digits_Some [OF assms(1)]
    by (simp add: FromDecimal_def Let_def)
qed

text \<open>
  Claim C9, as the code has it. \<open>TreeNode.UnmarshalText\<close> returns an error, and
  leaves the value nil, for every text that is not a valid decimal integer or that
  is negative; it accepts a decimal string below \<open>2^256\<close> and stores its value.
  \<open>ProviderData.UnmarshalJSON\<close> returns an error for every object in which one of
  the fields \<open>ax\<close>, \<open>bx\<close>, \<open>s\<close>, \<open>r8x\<close>, \<open>r8y\<close> (the DTO's \<open>Ax\<close>, \<open>Bx\<close>,
  \<open>S_dto\<close>, \<open>R8x\<close>, \<open>R8y\<close>) is not a valid decimal integer, and decodes every
  object in which all five are valid decimal integers, negative ones included.
\<close>

theorem decoding_rejects_non_decimal:
  "((\<not> is_decimal (strip_sign text) \<or> is_negative text)
      \<longrightarrow> (\<exists>err. UnmarshalText n text = (n\<lparr>Value := None\<rparr>, Some (Error err))))
   \<and> (is_decimal text \<and> digits_value text < 2 ^ 256
      \<longrightarrow> UnmarshalText n text = (n\<lparr>Value := Some (of_nat (digits_value text))\<rparr>, None))
   \<and> (json_Unmarshal data = Inr dto
        \<and> (\<exists>f \<in> {Ax dto, Bx dto, S_dto dto, R8x dto, R8y dto}. \<not> is_decimal (strip_sign f))
      \<longrightarrow> (\<exists>e. UnmarshalJSON json_Unmarshal p data = Inl (Error e)))
   \<and> (json_Unmarshal data = Inr dto
        \<and> (\<forall>f \<in> {Ax dto, Bx dto, S_dto dto, R8x dto, R8y dto}. is_decimal (strip_sign f))
      \<longrightarrow> (\<exists>p'. UnmarshalJSON json_Unmarshal p data = Inr p'
                \<and> SetString10 (Ax dto) = Some (X (PublicKey p'))))"
proof (intro conjI impI)
  assume "\<not> is_decimal (strip_sign text) \<or> is_negative text"
  from FromDecimal_rejects [OF this]
  show "\<exists>err. UnmarshalText n text = (n\<lparr>Value := None\<rparr>, Some (Error err))"
    by (auto simp: UnmarshalText_def)
next
  assume "is_decimal text \<and> digits_value text < 2 ^ 256"
  then have "FromDecimal text = Inr (of_nat (digits_value text))"
    using FromDecimal_accepts by blast
  then show "UnmarshalText n text = (n\<lparr>Value := Some (of_nat (digits_value text))\<rparr>, None)"
    by (simp add: UnmarshalText_def)
next
  assume a: "json_Unmarshal data = Inr dto
        \<and> (\<exists>f \<in> {Ax dto, Bx dto, S_dto dto, R8x dto, R8y dto}. \<not> is_decimal (strip_sign f))"
  then obtain f where f: "f \<in> {Ax dto, Bx dto, S_dto dto, R8x dto, R8y dto}"
    and nd: "\<not> is_decimal (strip_sign f)" by blast
  have none: "SetString10 f = None" by (rule SetString10_None [OF nd])
  from f consider "f = Ax dto" | "f = Bx dto" | "f = S_dto dto" | "f = R8x dto" | "f = R8y dto"
    by auto
  then show "\<exists>e. UnmarshalJSON json_Unmarshal p data = Inl (Error e)"
    using a none
    by cases (auto simp: UnmarshalJSON_def split: option.splits)
next
  assume a: "json_Unmarshal data = Inr dto
        \<and> (\<forall>f \<in> {Ax dto, Bx dto, S_dto dto, R8x dto, R8y dto}. is_decimal (strip_sign f))"
  then obtain v1 v2 v3 v4 v5 where
    "SetString10 (Ax dto) = Some v1" "SetString10 (Bx dto) = Some v2"
    "SetString10 (R8x dto) = Some v3" "SetString10 (R8y dto) = Some v4"
    "SetString10 (S_dto dto) = Some v5"
    using SetString10_Some [of "Ax dto"] SetString10_Some [of "Bx dto"]
      SetString10_Some [of "R8x dto"] SetString10_Some [of "R8y dto"]
      SetString10_Some [of "S_dto dto"]
    by auto
  then show "\<exists>p'. UnmarshalJSON json_Unmarshal p data = Inr p'
                \<and> SetString10 (Ax dto) = Some (X (PublicKey p'))"
    using a by (simp add: UnmarshalJSON_def)
qed

text \<open>
  The theorem at the texts \<open>-1\<close>, \<open>1a\<close> and \<open>12\<close>, at an object whose \<open>r8x\<close> field is
  not a decimal integer, and at an object of five decimal integers of which \<open>ax\<close> is
  negative.
\<close>

theorem decoding_rejects_non_decimal_witness:
  "(is_negative ''-1''
      \<and> (\<exists>err. UnmarshalText \<lparr>Value = Some 7\<rparr> ''-1'' = (\<lparr>Value = None\<rparr>, Some (Error err))))
   \<and> (\<not> is_decimal (strip_sign ''1a'')
      \<and> (\<exists>err. UnmarshalText \<lparr>Value = Some 7\<rparr> ''1a'' = (\<lparr>Value = None\<rparr>, Some (Error err))))
   \<and> (is_decimal ''12'' \<and> digits_value ''12'' < 2 ^ 256
      \<and> digits_value ''12'' = 12
      \<and> UnmarshalText \<lparr>Value = None\<rparr> ''12'' = (\<lparr>Value = Some 12\<rparr>, None))
   \<and> ((\<lambda>data. Inr bad_dto) [] = (Inr bad_dto :: string + providerDataDTO)
      \<and> (\<exists>f \<in> {Ax bad_dto, Bx bad_dto, S_dto bad_dto, R8x bad_dto, R8y bad_dto}.
            \<not> is_decimal (strip_sign f))
      \<and> (\<exists>e. UnmarshalJSON (\<lambda>data. Inr bad_dto) zeroProvider [] = Inl (Error e)))
   \<and> ((\<lambda>data. Inr example_dto) [] = (Inr example_dto :: string + providerDataDTO)
      \<and> is_decimal (strip_sign (Ax example_dto)) \<and> is_decimal (strip_sign (Bx example_dto))
      \<and> is_decimal (strip_sign (S_dto example_dto)) \<and> is_decimal (strip_sign (R8x example_dto))
      \<and> is_decimal (strip_sign (R8y example_dto))
      \<and> (\<exists>p'. UnmarshalJSON (\<lambda>data. Inr example_dto) zeroProvider [] = Inr p'
             \<and> SetString10 (Ax example_dto) = Some (X (PublicKey p'))))"
proof -
  have neg: "is_negative ''-1''"
    by (simp add: is_negative_def)
  have nd1: "\<not> is_decimal (strip_sign ''1a'')"
    by code_simp
  have dec: "is_decimal ''12''"
    by code_simp
  have val: "digits_value ''12'' = 12"
    by code_simp
  have nd: "\<not> is_decimal (strip_sign (R8x bad_dto))"
    by code_simp
  then have ex: "\<exists>f \<in> {Ax bad_dto, Bx bad_dto, S_dto bad_dto, R8x bad_dto, R8y bad_dto}.
            \<not> is_decimal (strip_sign f)"
    by blast
  have each: "is_decimal (strip_sign (Ax example_dto))" "is_decimal (strip_sign (Bx example_dto))"
    "is_decimal (strip_sign (S_dto example_dto))" "is_decimal (strip_sign (R8x example_dto))"
    "is_decimal (strip_sign (R8y example_dto))"
    by code_simp+
  then have al: "\<forall>f \<in> {Ax example_dto, Bx example_dto, S_dto example_dto, R8x example_dto,
                  R8y example_dto}. is_decimal (strip_sign f)"
    by simp
  note t1 = decoding_rejects_non_decimal
      [of "''-1''" "\<lparr>Value = Some 7\<rparr>" "\<lambda>data. Inr bad_dto" "[]" bad_dto zeroProvider,
       THEN conjunct1]
  note t1' = decoding_rejects_non_decimal
      [of "''1a''" "\<lparr>Value = Some 7\<rparr>" "\<lambda>data. Inr bad_dto" "[]" bad_dto zeroProvider,
       THEN conjunct1]
  note t2 = decoding_rejects_non_decimal
      [of "''12''" "\<lparr>Value = None\<rparr>" "\<lambda>data. Inr bad_dto" "[]" bad_dto zeroProvider,
       THEN conjunct2, THEN conjunct1]
  note t3 = decoding_rejects_non_decimal
      [of "''12''" "\<lparr>Value = None\<rparr>" "\<lambda>data. Inr bad_dto" "[]" bad_dto zeroProvider,
       THEN conjunct2, THEN conjunct2, THEN conjunct1]
  note t4 = decoding_rejects_non_decimal
      [of "''12''" "\<lparr>Value = None\<rparr>" "\<lambda>data. Inr example_dto" "[]" example_dto zeroProvider,
       THEN conjunct2, THEN conjunct2, THEN conjunct2]
  have c1: "\<exists>err. UnmarshalText \<lparr>Value = Some 7\<rparr> ''-1'' = (\<lparr>Value = None\<rparr>, Some (Error err))"
    using t1 neg by simp
  have c1': "\<exists>err. UnmarshalText \<lparr>Value = Some 7\<rparr> ''1a'' = (\<lparr>Value = None\<rparr>, Some (Error err))"
    using t1' nd1 by simp
  have c2: "UnmarshalText \<lparr>Value = None\<rparr> ''12'' = (\<lparr>Value = Some 12\<rparr>, None)"
    using t2 dec val by simp
  have c3: "\<exists>e. UnmarshalJSON (\<lambda>data. Inr bad_dto) zeroProvider [] = Inl (Error e)"
    using t3 ex by simp
  have c4: "\<exists>p'. UnmarshalJSON (\<lambda>data. Inr example_dto) zeroProvider [] = Inr p'
             \<and> SetString10 (Ax example_dto) = Some (X (PublicKey p'))"
    using t4 al by simp
  show ?thesis
    using neg nd1 dec val ex each c1 c1' c2 c3 c4 by simp
qed

text \<open>
  The claim as stated fails for a negative coordinate: the object whose \<open>ax\<close> field
  is \<open>-1\<close> is decoded without error, into the public key X coordinate \<open>-1\<close>.
\<close>

theorem UnmarshalJSON_accepts_negative_counterexample:
  "Ax example_dto = ''-1'' \<and> is_negative (Ax example_dto)
   \<and> UnmarshalJSON (\<lambda>data. Inr example_dto) zeroProvider []
       = Inr \<lparr>PublicKey = \<lparr>X = - 1, Y = 2\<rparr>, Signature = \<lparr>R8 = \<lparr>X = 4, Y = 5\<rparr>, S = 3\<rparr>\<rparr>"
  by code_simp

end
